theory Spec2Isabelle
  imports Main
begin

section \<open>Option objects and \<open>mergeOptions\<close>\<close>

text \<open>
  The values an effect option can hold. The options of an effect are \<open>bind\<close> (a property
  name), \<open>assign\<close>, \<open>markDirty\<close>, \<open>detectChanges\<close> and \<open>whenRendered\<close> (flags); an
  optional property may also be written out with the value \<open>undefined\<close>, which is not
  the same as leaving the key out.
\<close>

datatype jsval = Undefined | Null | JBool bool | JStr string

text \<open>
  A plain object, given by its own enumerable properties with string keys (the ones
  \<open>Object.assign\<close> copies); among them there may be one named
  \<open>__proto__\<close> (as \<open>JSON.parse\<close> or a computed key makes it). Its prototype is
  \<open>Object.prototype\<close> or \<open>null\<close>, and neither defines \<open>bind\<close>, \<open>assign\<close> or
  \<open>markDirty\<close>, the keys \<open>mergeOptions\<close> reads: such a key reads as the own property,
  and as \<open>undefined\<close> when there is none.
\<close>

type_synonym jsobj = "string \<rightharpoonup> jsval"

definition js_get :: "jsobj \<Rightarrow> string \<Rightarrow> jsval" where
  "js_get obj k = (case obj k of None \<Rightarrow> Undefined | Some v \<Rightarrow> v)"

text \<open>An argument that should be an object, as a caller can really pass it.\<close>

datatype 'a jsarg = JUndefined | JNull | JObject 'a

datatype js_error = TypeError

text \<open>\<open>Boolean(v)\<close> and \<open>a || b\<close>.\<close>

fun ToBoolean :: "jsval \<Rightarrow> bool" where
  "ToBoolean Undefined = False"
| "ToBoolean Null = False"
| "ToBoolean (JBool b) = b"
| "ToBoolean (JStr s) = (s \<noteq> [])"

definition js_or :: "jsval \<Rightarrow> jsval \<Rightarrow> jsval" where
  "js_or a b = (if ToBoolean a then a else b)"

text \<open>
  An object that is written to: its own properties and its prototype.
  \<open>target[k] = v\<close> makes or updates an own property, for every key but one:
  \<open>Object.prototype\<close> defines \<open>__proto__\<close> with a setter, so on an object that inherits
  it and has no own property of that name the write calls the setter, which sets the
  prototype when \<open>v\<close> is \<open>null\<close> (or an object, which no option value here is) and does
  nothing otherwise. No own property comes of it.
\<close>

datatype prototype = ObjectPrototype | NullPrototype

definition js_set :: "jsobj \<times> prototype \<Rightarrow> string \<Rightarrow> jsval \<Rightarrow> jsobj \<times> prototype" where
  "js_set obj k v =
     (case obj of (own, proto) \<Rightarrow>
        if k = ''__proto__'' \<and> own k = None \<and> proto = ObjectPrototype
        then (own, if v = Null then NullPrototype else proto)
        else (own(k \<mapsto> v), proto))"

text \<open>
  \<open>Object.assign(target, ...sources)\<close>: every own property of every source is written
  to the target with \<open>target[k] = v\<close>, source after source; a source that is \<open>null\<close>
  or \<open>undefined\<close> is skipped. Within one source the order of the keys makes no
  difference: only the write of \<open>__proto__\<close> looks at the target's prototype and at
  its own \<open>__proto__\<close>, and no other key's write changes them.
\<close>

definition assign_source :: "jsobj \<times> prototype \<Rightarrow> jsobj \<Rightarrow> jsobj \<times> prototype" where
  "assign_source target src =
     (let others = (fst target ++ src(''__proto__'' := None), snd target)
      in case src ''__proto__'' of
           None \<Rightarrow> others
         | Some v \<Rightarrow> js_set others ''__proto__'' v)"

fun Object_assign :: "jsobj \<times> prototype \<Rightarrow> jsobj jsarg list \<Rightarrow> jsobj \<times> prototype" where
  "Object_assign target [] = target"
| "Object_assign target (JObject src # rest) = Object_assign (assign_source target src) rest"
| "Object_assign target (_ # rest) = Object_assign target rest"

text \<open>
  \<^verbatim>\<open>
  export function mergeOptions(defaults: DefaultEffectOptions, options: EffectOptions<any> = {}) {
      // default to `markDirty: true` for bound effects unless explicitly set
      const merged = Object.assign({}, defaults, options)
      if (merged.markDirty === undefined && Boolean(options.bind || options.assign)) {
          merged.markDirty = true
      }
      return merged
  }
  \<close>
  The default parameter replaces an \<open>undefined\<close> argument only. Reading \<open>options.bind\<close>
  throws when \<open>options\<close> is \<open>null\<close>; \<open>&&\<close> evaluates it only when the left side is
  true. The result is given by its own properties.
\<close>

definition mergeOptions :: "jsobj jsarg \<Rightarrow> jsobj jsarg \<Rightarrow> js_error + jsobj" where
  "mergeOptions defaults options0 =
     (let options = (case options0 of JUndefined \<Rightarrow> JObject Map.empty | given \<Rightarrow> given);
          merged = Object_assign (Map.empty, ObjectPrototype) [defaults, options]
      in if js_get (fst merged) ''markDirty'' = Undefined then
           (case options of
              JObject opts \<Rightarrow>
                if ToBoolean (js_or (js_get opts ''bind'') (js_get opts ''assign''))
                then Inr (fst (js_set merged ''markDirty'' (JBool True)))
                else Inr (fst merged)
            | _ \<Rightarrow> Inl TypeError)
         else Inr (fst merged))"

section \<open>The effect-metadata registry and \<open>exploreEffects\<close>\<close>

text \<open>
  A component class (\<open>Type<any>\<close>). A \<open>Map\<close> compares its keys by reference;
  \<open>type_ref\<close> stands for the reference and \<open>type_name\<close> is the class's \<open>name\<close>.
\<close>

datatype jstype = JsType (type_ref: nat) (type_name: string)

text \<open>The decorators whose stored metadata \<open>exploreEffects\<close> reads.\<close>

datatype decorator = Effect | State | Context | Observe

text \<open>
  An effect descriptor, the object literal \<open>{ path, type, name, options, args }\<close>.
  What \<open>getMetadata(key, type.prototype, name)\<close> hands back for an argument decorator
  is kept abstract (\<open>'a\<close>).
\<close>

record 'a EffectMetadata =
  path :: string
  type :: jstype
  name :: string
  options :: jsobj
  args :: "'a list"

text \<open>
  \<open>getMetadata\<close> lives in \<open>./metadata\<close>, which is not among the sources. Its two uses
  are parameters of the model:
  \<^item> \<open>getMetadata(Effect)\<close> is the store of declared effects, a \<open>Map\<close> from a type to a
    \<open>Map\<close> from an effect's name to the options given to its decorator; both are
    walked with \<open>for ... of\<close>, in insertion order, so they are association lists here;
  \<^item> \<open>getMetadata(key, type.prototype, name)\<close> is a function of the decorator, the type
    and the effect's name.
\<close>

type_synonym effect_store = "(jstype \<times> (string \<times> jsobj jsarg) list) list"

text \<open>
  \<open>effectMetadata\<close>, the module-level \<open>Map<Type<any>, Set<EffectMetadata>>\<close>. Every
  descriptor is a fresh object, so the \<open>Set\<close> never merges two of them: it is the list
  of the descriptors in the order they were added.
\<close>

type_synonym 'a registry = "jstype \<rightharpoonup> 'a EffectMetadata list"

text \<open>
  The inner loop, \<open>for (const [name, locals] of effects)\<close>. The \<open>Set\<close> it fills is the
  one already stored in the registry, so what has been added stays there when
  \<open>mergeOptions\<close> throws.
\<close>

fun add_effects ::
  "jsobj jsarg \<Rightarrow> (decorator \<Rightarrow> jstype \<Rightarrow> string \<Rightarrow> 'a) \<Rightarrow> jstype \<Rightarrow> (string \<times> jsobj jsarg) list
     \<Rightarrow> 'a EffectMetadata list \<Rightarrow> js_error option \<times> 'a EffectMetadata list" where
  "add_effects defaults getMetadata ty [] effect = (None, effect)"
| "add_effects defaults getMetadata ty ((nm, locals) # rest) effect =
     (case mergeOptions defaults locals of
        Inl e \<Rightarrow> (Some e, effect)
      | Inr opts \<Rightarrow>
          add_effects defaults getMetadata ty rest
            (effect @ [\<lparr>path = type_name ty @ '' -> '' @ nm, type = ty, name = nm, options = opts,
                        args = map (\<lambda>key. getMetadata key ty nm) [State, Context, Observe]\<rparr>]))"

text \<open>The outer loop, \<open>for (const [type, effects] of metadata)\<close>.\<close>

fun explore_types ::
  "jsobj jsarg \<Rightarrow> (decorator \<Rightarrow> jstype \<Rightarrow> string \<Rightarrow> 'a) \<Rightarrow> effect_store
     \<Rightarrow> 'a registry \<Rightarrow> js_error option \<times> 'a registry" where
  "explore_types defaults getMetadata [] effectMetadata = (None, effectMetadata)"
| "explore_types defaults getMetadata ((ty, effects) # rest) effectMetadata =
     (case effectMetadata ty of
        Some cached \<Rightarrow> explore_types defaults getMetadata rest effectMetadata
      | None \<Rightarrow>
          (case add_effects defaults getMetadata ty effects [] of
             (Some e, effect) \<Rightarrow> (Some e, effectMetadata(ty \<mapsto> effect))
           | (None, effect) \<Rightarrow>
               explore_types defaults getMetadata rest (effectMetadata(ty \<mapsto> effect))))"

text \<open>
  \<^verbatim>\<open>
  export function exploreEffects(defaults: DefaultEffectOptions): Generator<EffectMetadata> {
      const metadata = getMetadata(Effect)
      for (const [type, effects] of metadata) {
          if (effectMetadata.has(type)) {
              continue
          }
          const effect = new Set<EffectMetadata>()
          effectMetadata.set(type, effect)
          for (const [name, locals] of effects) {
              const path = `${type.name} -> ${name}`
              const options = mergeOptions(defaults, locals)
              const args = [State, Context, Observe].map(key =>
                  getMetadata(key, type.prototype, name),
              )
              const metadata = { path, type, name, options, args }
              effect.add(metadata)
          }
      }
      return metadata
  }
  \<close>
  The function is an ordinary one (no \<open>function*\<close>, no \<open>yield\<close>): both loops have run
  when it returns. The \<open>metadata\<close> of the last line is the one of the first line, the
  store of declared effects; the descriptor of the same name is local to the inner
  loop's body. The result is the returned value (or the exception) and the registry
  as the call leaves it.
\<close>

definition exploreEffects ::
  "jsobj jsarg \<Rightarrow> (decorator \<Rightarrow> jstype \<Rightarrow> string \<Rightarrow> 'a) \<Rightarrow> effect_store
     \<Rightarrow> 'a registry \<Rightarrow> (js_error + effect_store) \<times> 'a registry" where
  "exploreEffects defaults getMetadata metadata effectMetadata =
     (case explore_types defaults getMetadata metadata effectMetadata of
        (Some e, effectMetadata') \<Rightarrow> (Inl e, effectMetadata')
      | (None, effectMetadata') \<Rightarrow> (Inr metadata, effectMetadata'))"

section \<open>The render-completion observer\<close>

text \<open>
  \<open>RenderFactoryObserver\<close> is written against rxjs: a \<open>Subject\<close>, whose \<open>observers\<close>
  array it reads, and the operators \<open>filter\<close>, \<open>take(1)\<close> and \<open>share()\<close>. rxjs is a
  library, not code of this repository; the definitions of this section that are not
  methods of the class (\<open>complete_pipe\<close>, \<open>deliver\<close>, \<open>Subject_next\<close>,
  \<open>Subject_complete\<close>, \<open>subscribe\<close>, \<open>unsubscribe\<close>) write down what rxjs 6 does
  for exactly the calls the class makes:
  \<^item> \<open>Subject.next\<close> does nothing on a stopped subject and otherwise calls \<open>next\<close> on a
    copy of \<open>observers\<close>, in order; \<open>Subject.complete\<close> stops the subject, completes
    every observer and empties the array in place (so the array the constructor keeps
    in \<open>observers\<close> stays the subject's own); subscribing to a stopped subject
    completes the subscriber at once and registers nothing;
  \<^item> \<open>filter(f)\<close> passes a value on when \<open>f\<close> holds; \<open>take(1)\<close> passes the first value
    on and completes;
  \<^item> \<open>share()\<close> keeps one inner subject for its current subscribers, subscribes to its
    source when the first of them arrives, unsubscribes when the last one leaves, and
    starts afresh after its source has completed.

  The class never calls \<open>unsubscribe()\<close> on its subject, so \<open>next\<close> and \<open>complete\<close>
  do not throw. \<open>renderer.parentNode\<close> is taken to answer without throwing, and the
  subscribers are receivers only: what a subscriber's own callback goes on to do is
  not part of the model.

  The events a run leaves behind, in order: the original hook was invoked; the
  observer called \<open>subject.next()\<close>; a subscriber of a \<open>whenRendered\<close> observable was
  handed a value; such a subscriber was completed.
\<close>

datatype event = OrigEnd | SubjectNext | Delivered nat | Completed nat

text \<open>
  One observable returned by \<open>whenRendered(element, renderer)\<close>: the two arguments its
  filter closes over, and the subscribers its \<open>share()\<close> currently holds. The renderer
  is its \<open>parentNode\<close> method, which reads the rendering engine's state \<open>'w\<close> and
  answers a node or \<open>null\<close>.
\<close>

record ('w, 'e) shared =
  element :: 'e
  renderer :: "'w \<Rightarrow> 'e \<Rightarrow> 'e option"
  subs :: "nat list"

text \<open>
  The state: the rendering engine's own state (\<open>world\<close>: the renderer factory and the
  DOM, which the original hook may change); the subject (\<open>observers\<close>, holding for
  every connected \<open>whenRendered\<close> observable the subscriber of its filter, and
  \<open>isStopped\<close>); the observables handed out so far; counters naming new observables
  and subscribers; the events so far.
\<close>

record ('w, 'e) observer_state =
  world :: 'w
  observers :: "nat list"
  isStopped :: bool
  pipes :: "nat \<rightharpoonup> ('w, 'e) shared"
  next_pipe :: nat
  next_sub :: nat
  trace :: "event list"

text \<open>
  Modelled from the spec: \<open>noop\<close> is imported from \<open>./utils\<close>, which is not among the
  sources. It is what its name and its use as a stand-in for the hook say: a function
  that does nothing and returns normally. A hook takes the engine's state and returns
  what it threw, if anything, and the state it leaves.
\<close>

definition noop :: "'w \<Rightarrow> 'x option \<times> 'w" where
  "noop w = (None, w)"

text \<open>The filter's predicate, \<open>() => renderer.parentNode(element) !== null\<close>.\<close>

definition attached :: "('w, 'e) shared \<Rightarrow> 'w \<Rightarrow> bool" where
  "attached sh w = (renderer sh w (element sh) \<noteq> None)"

text \<open>
  The source of observable \<open>p\<close> completes (its \<open>take(1)\<close> is done, or the subject
  completed): \<open>share()\<close> lets go of the subject and completes its subscribers.
\<close>

definition complete_pipe :: "nat \<Rightarrow> ('w, 'e) observer_state \<Rightarrow> ('w, 'e) observer_state" where
  "complete_pipe p s =
     (case pipes s p of
        None \<Rightarrow> s
      | Some sh \<Rightarrow>
          s\<lparr>observers := remove1 p (observers s),
            pipes := (pipes s)(p \<mapsto> sh\<lparr>subs := []\<rparr>),
            trace := trace s @ map Completed (subs sh)\<rparr>)"

text \<open>
  The subject calls \<open>next\<close> on the filter of observable \<open>p\<close>: when the predicate
  holds, \<open>take(1)\<close> hands the value to every subscriber \<open>share()\<close> holds and completes.
\<close>

definition deliver :: "nat \<Rightarrow> ('w, 'e) observer_state \<Rightarrow> ('w, 'e) observer_state" where
  "deliver p s =
     (case pipes s p of
        None \<Rightarrow> s
      | Some sh \<Rightarrow>
          if attached sh (world s)
          then complete_pipe p (s\<lparr>trace := trace s @ map Delivered (subs sh)\<rparr>)
          else s)"

definition Subject_next :: "('w, 'e) observer_state \<Rightarrow> ('w, 'e) observer_state" where
  "Subject_next s = (if isStopped s then s else fold deliver (observers s) s)"

definition Subject_complete :: "('w, 'e) observer_state \<Rightarrow> ('w, 'e) observer_state" where
  "Subject_complete s =
     (fold complete_pipe (observers s) (s\<lparr>isStopped := True\<rparr>))\<lparr>observers := []\<rparr>"

text \<open>
  A new subscriber, named \<open>next_sub s\<close>, subscribes to observable \<open>p\<close>. The first
  subscriber makes \<open>share()\<close> subscribe to the subject, which completes it at once when
  it is stopped.
\<close>

definition subscribe :: "nat \<Rightarrow> ('w, 'e) observer_state \<Rightarrow> ('w, 'e) observer_state" where
  "subscribe p s =
     (case pipes s p of
        None \<Rightarrow> s
      | Some sh \<Rightarrow>
          let s1 = s\<lparr>next_sub := Suc (next_sub s),
                     pipes := (pipes s)(p \<mapsto> sh\<lparr>subs := subs sh @ [next_sub s]\<rparr>)\<rparr>
          in if subs sh = []
             then (if isStopped s1 then complete_pipe p s1
                   else s1\<lparr>observers := observers s1 @ [p]\<rparr>)
             else s1)"

text \<open>Subscriber \<open>sid\<close> of observable \<open>p\<close> unsubscribes; the last one disconnects \<open>p\<close>.\<close>

definition unsubscribe :: "nat \<Rightarrow> nat \<Rightarrow> ('w, 'e) observer_state \<Rightarrow> ('w, 'e) observer_state" where
  "unsubscribe p sid s =
     (case pipes s p of
        None \<Rightarrow> s
      | Some sh \<Rightarrow>
          if sid \<in> set (subs sh)
          then let s1 = s\<lparr>pipes := (pipes s)(p \<mapsto> sh\<lparr>subs := remove1 sid (subs sh)\<rparr>)\<rparr>
               in if remove1 sid (subs sh) = []
                  then s1\<lparr>observers := remove1 p (observers s1)\<rparr>
                  else s1
          else s)"

text \<open>
  \<^verbatim>\<open>
  constructor(rendererFactory: RendererFactory2) {
      const origEndFn = rendererFactory.end || noop
      const subject = new Subject<void>()
      const observers = subject.observers

      rendererFactory.end = () => {
          origEndFn.apply(rendererFactory)
          if (observers.length > 0) {
              subject.next()
          }
      }

      this.observer = subject
  }
  \<close>
  \<open>origEndFn end_fn\<close> is the first line, for the factory's \<open>end\<close> as the constructor
  finds it (\<open>None\<close>: \<open>null\<close> or \<open>undefined\<close>). \<open>rendererFactory_end\<close> is the arrow
  function the constructor installs: an exception of the original hook leaves it
  before the test of \<open>observers.length\<close>. The constructor yields the installed hook
  and the new observer's state.
\<close>

definition origEndFn :: "('w \<Rightarrow> 'x option \<times> 'w) option \<Rightarrow> 'w \<Rightarrow> 'x option \<times> 'w" where
  "origEndFn end_fn = (case end_fn of Some f \<Rightarrow> f | None \<Rightarrow> noop)"

definition rendererFactory_end ::
  "('w \<Rightarrow> 'x option \<times> 'w) \<Rightarrow> ('w, 'e) observer_state \<Rightarrow> 'x option \<times> ('w, 'e) observer_state" where
  "rendererFactory_end orig s =
     (let (thrown, w) = orig (world s);
          s1 = s\<lparr>world := w, trace := trace s @ [OrigEnd]\<rparr>
      in case thrown of
           Some x \<Rightarrow> (Some x, s1)
         | None \<Rightarrow>
             if length (observers s1) > 0
             then (None, Subject_next (s1\<lparr>trace := trace s1 @ [SubjectNext]\<rparr>))
             else (None, s1))"

definition constructor ::
  "('w \<Rightarrow> 'x option \<times> 'w) option \<Rightarrow> 'w
     \<Rightarrow> (('w, 'e) observer_state \<Rightarrow> 'x option \<times> ('w, 'e) observer_state)
        \<times> ('w, 'e) observer_state" where
  "constructor end_fn w =
     (rendererFactory_end (origEndFn end_fn),
      \<lparr>world = w, observers = [], isStopped = False, pipes = Map.empty,
       next_pipe = 0, next_sub = 0, trace = []\<rparr>)"

text \<open>
  \<^verbatim>\<open>
  public whenRendered(element: any, renderer: Renderer2) {
      return this.observer.pipe(
          filter(() => renderer.parentNode(element) !== null),
          take(1),
          share(),
      )
  }

  public ngOnDestroy() {
      this.observer.complete()
  }
  \<close>
  \<open>whenRendered\<close> only builds a new observable; nothing is subscribed yet. The result
  is the observable's name and the state that knows it.
\<close>

definition whenRendered ::
  "'e \<Rightarrow> ('w \<Rightarrow> 'e \<Rightarrow> 'e option) \<Rightarrow> ('w, 'e) observer_state \<Rightarrow> nat \<times> ('w, 'e) observer_state" where
  "whenRendered el rend s =
     (next_pipe s,
      s\<lparr>next_pipe := Suc (next_pipe s),
        pipes := (pipes s)(next_pipe s \<mapsto> \<lparr>element = el, renderer = rend, subs = []\<rparr>)\<rparr>)"

definition ngOnDestroy :: "('w, 'e) observer_state \<Rightarrow> ('w, 'e) observer_state" where
  "ngOnDestroy s = Subject_complete s"

text \<open>
  What can happen to an observer once it is constructed: a caller asks for an
  observable, subscribes to one or unsubscribes; the rendering engine ends a render
  pass and calls the factory's \<open>end\<close>, which is the installed hook; the observer is
  destroyed; the host changes the DOM. A run is any sequence of these, from the state
  the constructor leaves. A pass whose original hook throws leaves the state it had
  reached.
\<close>

datatype ('w, 'e) action =
    WhenRendered 'e "'w \<Rightarrow> 'e \<Rightarrow> 'e option"
  | Subscribe nat
  | Unsubscribe nat nat
  | RenderPass
  | Destroy
  | Host "'w \<Rightarrow> 'w"

fun step ::
  "('w \<Rightarrow> 'x option \<times> 'w) option \<Rightarrow> ('w, 'e) action
     \<Rightarrow> ('w, 'e) observer_state \<Rightarrow> ('w, 'e) observer_state" where
  "step end_fn (WhenRendered el rend) s = snd (whenRendered el rend s)"
| "step end_fn (Subscribe p) s = subscribe p s"
| "step end_fn (Unsubscribe p sid) s = unsubscribe p sid s"
| "step end_fn RenderPass s = snd (rendererFactory_end (origEndFn end_fn) s)"
| "step end_fn Destroy s = ngOnDestroy s"
| "step end_fn (Host g) s = s\<lparr>world := g (world s)\<rparr>"

definition run ::
  "('w \<Rightarrow> 'x option \<times> 'w) option \<Rightarrow> ('w, 'e) action list \<Rightarrow> 'w \<Rightarrow> ('w, 'e) observer_state" where
  "run end_fn acts w = fold (step end_fn) acts (snd (constructor end_fn w))"

section \<open>Predicates used in the proofs\<close>

text \<open>The subscribers observable \<open>p\<close> holds, and whether its filter lets a value through.\<close>

definition subs_at :: "('w, 'e) observer_state \<Rightarrow> nat \<Rightarrow> nat list" where
  "subs_at s p = (case pipes s p of None \<Rightarrow> [] | Some sh \<Rightarrow> subs sh)"

definition passes :: "('w, 'e) observer_state \<Rightarrow> nat \<Rightarrow> bool" where
  "passes s p = (case pipes s p of None \<Rightarrow> False | Some sh \<Rightarrow> attached sh (world s))"

text \<open>
  What holds of every state a run reaches: no observable holds a subscriber twice; a
  subscriber that is still held is known and has not been handed a value; no two
  observables hold the same subscriber; only known subscribers have been handed
  values; nobody has been handed more than one; an observable that holds subscribers
  is connected to the subject, which is not stopped.
\<close>

definition consistent :: "('w, 'e) observer_state \<Rightarrow> bool" where
  "consistent s \<longleftrightarrow>
     (\<forall>p. distinct (subs_at s p))
   \<and> (\<forall>p sid. sid \<in> set (subs_at s p) \<longrightarrow> sid < next_sub s \<and> Delivered sid \<notin> set (trace s))
   \<and> (\<forall>p q. p \<noteq> q \<longrightarrow> set (subs_at s p) \<inter> set (subs_at s q) = {})
   \<and> (\<forall>sid. Delivered sid \<in> set (trace s) \<longrightarrow> sid < next_sub s)
   \<and> (\<forall>sid. count_list (trace s) (Delivered sid) \<le> 1)
   \<and> (\<forall>p. subs_at s p \<noteq> [] \<longrightarrow> p \<in> set (observers s) \<and> \<not> isStopped s)"

text \<open>The element and the renderer observable \<open>p\<close> was made for.\<close>

definition source_of ::
  "('w, 'e) observer_state \<Rightarrow> nat \<Rightarrow> ('e \<times> ('w \<Rightarrow> 'e \<Rightarrow> 'e option)) option" where
  "source_of s p = map_option (\<lambda>sh. (element sh, renderer sh)) (pipes s p)"

text \<open>Names of observables are handed out in order.\<close>

definition alloc :: "('w, 'e) observer_state \<Rightarrow> bool" where
  "alloc s \<longleftrightarrow> (\<forall>p. next_pipe s \<le> p \<longrightarrow> pipes s p = None)"

text \<open>The subject after \<open>complete()\<close>, and a stretch of events without a notification.\<close>

definition closed_channel :: "('w, 'e) observer_state \<Rightarrow> bool" where
  "closed_channel s \<longleftrightarrow> isStopped s \<and> observers s = []"

definition quiet :: "event list \<Rightarrow> bool" where
  "quiet es \<longleftrightarrow> SubjectNext \<notin> set es \<and> (\<forall>sid. Delivered sid \<notin> set es)"

text \<open>
  What one round of the inner loop builds from a declared effect \<open>e = (name, locals)\<close>
  of the type \<open>ty\<close>: the descriptor \<open>d\<close> with the path, the owning type, the effect's
  name, the options merged from the defaults and \<open>locals\<close>, and the three argument
  sources.
\<close>

abbreviation describes ::
  "jsobj jsarg \<Rightarrow> (decorator \<Rightarrow> jstype \<Rightarrow> string \<Rightarrow> 'a) \<Rightarrow> jstype
     \<Rightarrow> string \<times> jsobj jsarg \<Rightarrow> 'a EffectMetadata \<Rightarrow> bool" where
  "describes defaults getMetadata ty e d \<equiv>
     path d = type_name ty @ '' -> '' @ fst e \<and> type d = ty \<and> name d = fst e
     \<and> mergeOptions defaults (snd e) = Inr (options d)
     \<and> args d = [getMetadata State ty (fst e), getMetadata Context ty (fst e),
                  getMetadata Observe ty (fst e)]"

section \<open>Properties of \<open>mergeOptions\<close>\<close>

lemma Object_assign_two:
  "fst (Object_assign (Map.empty, ObjectPrototype) [JObject d, JObject ov])
     = (d ++ ov)(''__proto__'' := (if d ''__proto__'' = Some Null then ov ''__proto__'' else None))"
  by (auto simp: assign_source_def js_set_def Let_def fun_eq_iff map_add_def
      split: option.splits)

lemma mergeOptions_objects:
  "mergeOptions (JObject d) (JObject ov) =
     (let laid = (d ++ ov)(''__proto__'' := (if d ''__proto__'' = Some Null then ov ''__proto__'' else None))
      in Inr (if js_get laid ''markDirty'' = Undefined
                \<and> (ToBoolean (js_get ov ''bind'') \<or> ToBoolean (js_get ov ''assign''))
              then laid(''markDirty'' \<mapsto> JBool True) else laid))"
proof -
  obtain own proto where m: "Object_assign (Map.empty, ObjectPrototype) [JObject d, JObject ov] = (own, proto)"
    by (cases "Object_assign (Map.empty, ObjectPrototype) [JObject d, JObject ov]")
  with Object_assign_two [of d ov]
  have own: "own = (d ++ ov)(''__proto__'' := (if d ''__proto__'' = Some Null then ov ''__proto__'' else None))"
    by simp
  have "mergeOptions (JObject d) (JObject ov) =
      Inr (if js_get own ''markDirty'' = Undefined
                \<and> (ToBoolean (js_get ov ''bind'') \<or> ToBoolean (js_get ov ''assign''))
              then own(''markDirty'' \<mapsto> JBool True) else own)"
    using m by (simp add: mergeOptions_def js_or_def js_set_def Let_def del: Object_assign.simps)
  then show ?thesis
    unfolding own Let_def .
qed

lemma mergeOptions_plain:
  assumes "d ''__proto__'' = None" and "ov ''__proto__'' = None"
  shows "mergeOptions (JObject d) (JObject ov) =
     Inr (if js_get (d ++ ov) ''markDirty'' = Undefined
            \<and> (ToBoolean (js_get ov ''bind'') \<or> ToBoolean (js_get ov ''assign''))
          then (d ++ ov)(''markDirty'' \<mapsto> JBool True) else d ++ ov)"
proof -
  from assms have "(d ++ ov)(''__proto__'' := None) = d ++ ov"
    by (simp add: fun_eq_iff map_add_def)
  with assms show ?thesis
    by (simp add: mergeOptions_objects Let_def)
qed

lemma js_get_override:
  "js_get (d ++ ov) k = (case ov k of Some v \<Rightarrow> v | None \<Rightarrow> js_get d k)"
  by (simp add: js_get_def map_add_def split: option.splits)








text \<open>
  The second exception at work: the override's own \<open>__proto__\<close> entry is not an
  entry of the merged result.
\<close>

lemma mergeOptions_proto_entry_dropped:
  "mergeOptions (JObject Map.empty) (JObject [''__proto__'' \<mapsto> JStr ''p'']) = Inr Map.empty"
  by (simp add: mergeOptions_objects js_get_def Let_def)

text \<open>
  C9 (as amended). With the per-effect options left out (\<open>undefined\<close>, which the
  default parameter turns into \<open>{}\<close>) or empty, \<open>mergeOptions\<close> returns normally, the
  \<open>markDirty\<close> rule adds nothing, and the result has exactly the defaults' entries
  other than an entry named \<open>__proto__\<close>, which \<open>Object.assign\<close> writes through the
  setter of \<open>Object.prototype\<close>.
\<close>

theorem mergeOptions_without_options:
  "mergeOptions (JObject d) JUndefined = Inr (d(''__proto__'' := None))
   \<and> mergeOptions (JObject d) (JObject Map.empty) = Inr (d(''__proto__'' := None))"
proof -
  have "mergeOptions (JObject d) JUndefined = mergeOptions (JObject d) (JObject Map.empty)"
    by (simp add: mergeOptions_def)
  moreover have "mergeOptions (JObject d) (JObject Map.empty) = Inr (d(''__proto__'' := None))"
    by (simp add: mergeOptions_objects js_get_def Let_def)
  ultimately show ?thesis by simp
qed

text \<open>
  C9 as it is written fails: the defaults \<open>{ ["__proto__"]: "p" }\<close> have one entry and
  the result of merging them with no options has none.
\<close>

theorem mergeOptions_without_options_counterexample:
  "mergeOptions (JObject [''__proto__'' \<mapsto> JStr ''p'']) JUndefined = Inr Map.empty
   \<and> [''__proto__'' \<mapsto> JStr ''p''] \<noteq> (Map.empty :: jsobj)"
  by (simp add: mergeOptions_def assign_source_def js_set_def js_get_def js_or_def Let_def)

section \<open>Properties of \<open>exploreEffects\<close>\<close>

lemma explore_types_keeps:
  "reg ty = Some cached \<Longrightarrow> snd (explore_types defaults gm md reg) ty = Some cached"
proof (induction md arbitrary: reg)
  case Nil
  then show ?case by simp
next
  case (Cons entry md)
  obtain t es where entry: "entry = (t, es)" by (cases entry)
  show ?case
  proof (cases "reg t")
    case (Some c)
    with Cons entry show ?thesis by simp
  next
    case None
    with Cons.prems have neq: "t \<noteq> ty" by auto
    obtain exn effect where ae: "add_effects defaults gm t es [] = (exn, effect)"
      by (cases "add_effects defaults gm t es []")
    have upd: "(reg(t \<mapsto> effect)) ty = Some cached"
      using neq Cons.prems by simp
    have step: "snd (explore_types defaults gm md (reg(t \<mapsto> effect))) ty = Some cached"
      by (rule Cons.IH) (rule upd)
    from entry \<open>reg t = None\<close> ae step upd show ?thesis
      by (cases exn) simp_all
  qed
qed

lemma add_effects_describes:
  "add_effects defaults gm ty effects acc = (None, ds) \<Longrightarrow>
     \<exists>new. ds = acc @ new \<and> list_all2 (describes defaults gm ty) effects new"
proof (induction effects arbitrary: acc)
  case Nil
  then show ?case by simp
next
  case (Cons e effects)
  obtain nm locals where e: "e = (nm, locals)" by (cases e)
  from Cons.prems e obtain opts where mo: "mergeOptions defaults locals = Inr opts"
    by (cases "mergeOptions defaults locals") auto
  let ?d = "\<lparr>path = type_name ty @ '' -> '' @ nm, type = ty, name = nm, options = opts,
                        args = map (\<lambda>key. gm key ty nm) [State, Context, Observe]\<rparr>"
  from Cons.prems e mo have "add_effects defaults gm ty effects (acc @ [?d]) = (None, ds)"
    by simp
  from Cons.IH [OF this] obtain new where new: "ds = (acc @ [?d]) @ new"
     "list_all2 (describes defaults gm ty) effects new" by blast
  have "describes defaults gm ty e ?d"
    by (simp add: e mo)
  with new show ?case
    by (intro exI [of _ "?d # new"]) simp
qed

lemma explore_types_fills:
  "explore_types defaults gm md reg = (None, reg') \<Longrightarrow> map_of md ty = Some effects \<Longrightarrow> reg ty = None \<Longrightarrow>
     \<exists>ds. reg' ty = Some ds \<and> list_all2 (describes defaults gm ty) effects ds"
proof (induction md arbitrary: reg)
  case Nil
  then show ?case by simp
next
  case (Cons entry md)
  obtain t es where entry: "entry = (t, es)" by (cases entry)
  show ?case
  proof (cases "reg t")
    case (Some c)
    with Cons.prems(3) have "t \<noteq> ty" by auto
    with Cons entry Some show ?thesis by simp
  next
    case None
    obtain exn effect where ae: "add_effects defaults gm t es [] = (exn, effect)"
      by (cases "add_effects defaults gm t es []")
    with Cons.prems(1) entry None have exn: "exn = None"
      by (cases exn) auto
    with Cons.prems(1) entry None ae
    have rest: "explore_types defaults gm md (reg(t \<mapsto> effect)) = (None, reg')"
      by simp
    show ?thesis
    proof (cases "t = ty")
      case True
      with Cons.prems(2) entry have "es = effects" by simp
      with add_effects_describes ae exn True
      have d: "list_all2 (describes defaults gm ty) effects effect" by fastforce
      have "snd (explore_types defaults gm md (reg(t \<mapsto> effect))) ty = Some effect"
        using True by (intro explore_types_keeps) simp
      with rest d show ?thesis by simp
    next
      case False
      with Cons.prems entry have "map_of md ty = Some effects" "(reg(t \<mapsto> effect)) ty = None"
        by simp_all
      from Cons.IH [OF rest this] show ?thesis .
    qed
  qed
qed

lemma explore_types_covers:
  "explore_types defaults gm md reg = (None, reg') \<Longrightarrow> (t, es) \<in> set md \<Longrightarrow> reg' t \<noteq> None"
proof (induction md arbitrary: reg)
  case Nil
  then show ?case by simp
next
  case (Cons entry md)
  obtain t0 es0 where entry: "entry = (t0, es0)" by (cases entry)
  show ?case
  proof (cases "reg t0")
    case (Some c)
    show ?thesis
    proof (cases "(t, es) \<in> set md")
      case True
      with Cons entry Some show ?thesis by simp
    next
      case False
      with Cons.prems entry have "t = t0" by simp
      with explore_types_keeps [of reg t0 c defaults gm "entry # md"] Some Cons.prems(1)
      show ?thesis by simp
    qed
  next
    case None
    obtain exn effect where ae: "add_effects defaults gm t0 es0 [] = (exn, effect)"
      by (cases "add_effects defaults gm t0 es0 []")
    with Cons.prems(1) entry None have exn: "exn = None"
      by (cases exn) auto
    with Cons.prems(1) entry None ae
    have rest: "explore_types defaults gm md (reg(t0 \<mapsto> effect)) = (None, reg')"
      by simp
    show ?thesis
    proof (cases "(t, es) \<in> set md")
      case True
      from Cons.IH [OF rest True] show ?thesis .
    next
      case False
      with Cons.prems entry have "t = t0" by simp
      with explore_types_keeps [of "reg(t0 \<mapsto> effect)" t0 effect defaults gm md] rest
      show ?thesis by simp
    qed
  qed
qed

lemma explore_types_all_cached:
  "(\<And>t es. (t, es) \<in> set md \<Longrightarrow> reg t \<noteq> None) \<Longrightarrow> explore_types defaults gm md reg = (None, reg)"
proof (induction md)
  case Nil
  then show ?case by simp
next
  case (Cons entry md)
  obtain t es where entry: "entry = (t, es)" by (cases entry)
  with Cons.prems [of t es] obtain c where "reg t = Some c" by auto
  moreover have "explore_types defaults gm md reg = (None, reg)"
  proof (rule Cons.IH)
    fix t' es' assume "(t', es') \<in> set md"
    then show "reg t' \<noteq> None" using Cons.prems [of t' es'] by simp
  qed
  ultimately show ?case using entry by simp
qed

text \<open>
  C3. A type that is in the registry when \<open>exploreEffects\<close> is called still has the
  same descriptors afterwards, whatever defaults this call is given and also when the
  call ends in an exception: the options merged when the type was first processed stay.
\<close>

theorem exploreEffects_keeps_cached:
  assumes "effectMetadata ty = Some cached"
  shows "snd (exploreEffects defaults getMetadata metadata effectMetadata) ty = Some cached"
proof -
  have "snd (exploreEffects defaults getMetadata metadata effectMetadata)
      = snd (explore_types defaults getMetadata metadata effectMetadata)"
    by (simp add: exploreEffects_def split: prod.splits option.splits)
  moreover have "snd (explore_types defaults getMetadata metadata effectMetadata) ty = Some cached"
    using assms by (rule explore_types_keeps)
  ultimately show ?thesis by simp
qed

theorem exploreEffects_keeps_cached_witness:
  "[JsType 1 ''App'' \<mapsto>
      [\<lparr>path = ''App -> count'', type = JsType 1 ''App'', name = ''count'',
        options = [''bind'' \<mapsto> JStr ''count'', ''markDirty'' \<mapsto> JBool False],
        args = [0, 0, 0 :: nat]\<rparr>]] (JsType 1 ''App'')
     = Some [\<lparr>path = ''App -> count'', type = JsType 1 ''App'', name = ''count'',
        options = [''bind'' \<mapsto> JStr ''count'', ''markDirty'' \<mapsto> JBool False],
        args = [0, 0, 0]\<rparr>]
   \<and> snd (exploreEffects (JObject [''markDirty'' \<mapsto> JBool True]) (\<lambda>key ty nm. 0 :: nat)
          [(JsType 1 ''App'', [(''count'', JObject [''bind'' \<mapsto> JStr ''count''])])]
          [JsType 1 ''App'' \<mapsto>
            [\<lparr>path = ''App -> count'', type = JsType 1 ''App'', name = ''count'',
              options = [''bind'' \<mapsto> JStr ''count'', ''markDirty'' \<mapsto> JBool False],
              args = [0, 0, 0]\<rparr>]]) (JsType 1 ''App'')
     = Some [\<lparr>path = ''App -> count'', type = JsType 1 ''App'', name = ''count'',
        options = [''bind'' \<mapsto> JStr ''count'', ''markDirty'' \<mapsto> JBool False],
        args = [0, 0, 0]\<rparr>]"
proof -
  let ?d = "\<lparr>path = ''App -> count'', type = JsType 1 ''App'', name = ''count'',
        options = [''bind'' \<mapsto> JStr ''count'', ''markDirty'' \<mapsto> JBool False],
        args = [0, 0, 0 :: nat]\<rparr>"
  have cached: "[JsType 1 ''App'' \<mapsto> [?d]] (JsType 1 ''App'') = Some [?d]"
    by simp
  have "snd (exploreEffects (JObject [''markDirty'' \<mapsto> JBool True]) (\<lambda>key ty nm. 0)
          [(JsType 1 ''App'', [(''count'', JObject [''bind'' \<mapsto> JStr ''count''])])]
          [JsType 1 ''App'' \<mapsto> [?d]]) (JsType 1 ''App'') = Some [?d]"
    using cached by (rule exploreEffects_keeps_cached)
  with cached show ?thesis
    by simp
qed

text \<open>
  What a call builds, it builds in the registry, eagerly: when it returns normally,
  every type of the store that was not in the registry now has there one descriptor
  for each of its declared effects, in order, each with the path, the owning type, the
  effect's name, the options merged from this call's defaults and the three argument
  sources; and a second call, with any defaults, leaves this registry as it is.
\<close>

lemma exploreEffects_fills_registry:
  assumes "exploreEffects defaults getMetadata metadata effectMetadata = (Inr returned, effectMetadata')"
  shows "(\<forall>ty effects. map_of metadata ty = Some effects \<and> effectMetadata ty = None \<longrightarrow>
            (\<exists>descriptors. effectMetadata' ty = Some descriptors
               \<and> list_all2 (describes defaults getMetadata ty) effects descriptors))
         \<and> (\<forall>defaults2. snd (exploreEffects defaults2 getMetadata metadata effectMetadata')
               = effectMetadata')"
proof -
  from assms have run: "explore_types defaults getMetadata metadata effectMetadata = (None, effectMetadata')"
    by (auto simp: exploreEffects_def split: prod.splits option.splits)
  have "explore_types defaults2 getMetadata metadata effectMetadata' = (None, effectMetadata')"
    for defaults2
    by (rule explore_types_all_cached) (rule explore_types_covers [OF run])
  then have again: "snd (exploreEffects defaults2 getMetadata metadata effectMetadata') = effectMetadata'"
    for defaults2
    by (simp add: exploreEffects_def)
  from explore_types_fills [OF run] again show ?thesis
    by blast
qed

text \<open>
  C4. The claim wants the returned value to be the sequence of the descriptors built
  for the newly processed types, as the declared return type
  \<open>Generator<EffectMetadata>\<close> promises. The code returns something else: its
  \<open>return metadata\<close> names the store of declared effects read in the first line, not
  the descriptors. For the store with the one type \<open>App\<close> and its one effect \<open>count\<close>,
  declared with \<open>{ bind: "count" }\<close>, and an empty registry, the returned value is that
  store, whose only element is the pair of \<open>App\<close> and its declared effects; the
  descriptor of \<open>count\<close> is built and put in the registry, and is nowhere in the
  returned value.
\<close>

theorem exploreEffects_returns_store:
  "exploreEffects (JObject Map.empty) (\<lambda>key ty nm. 0 :: nat)
     [(JsType 1 ''App'', [(''count'', JObject [''bind'' \<mapsto> JStr ''count''])])] Map.empty
   = (Inr [(JsType 1 ''App'', [(''count'', JObject [''bind'' \<mapsto> JStr ''count''])])],
      [JsType 1 ''App'' \<mapsto>
        [\<lparr>path = ''App -> count'', type = JsType 1 ''App'', name = ''count'',
          options = [''bind'' \<mapsto> JStr ''count'', ''markDirty'' \<mapsto> JBool True],
          args = [0, 0, 0]\<rparr>]])"
  by (simp add: exploreEffects_def mergeOptions_plain js_get_def)

section \<open>Properties of the render-completion observer\<close>

lemma count_list_map_Delivered [simp]:
  "count_list (map Delivered xs) (Delivered sid) = count_list xs sid"
  by (induction xs) auto

lemma count_list_map_Completed [simp]:
  "count_list (map Completed xs) (Delivered sid) = 0"
  by (induction xs) auto

lemma count_list_distinct_le: "distinct xs \<Longrightarrow> count_list xs x \<le> 1"
  by (induction xs) auto

lemma Delivered_in_map_Completed [simp]: "Delivered sid \<notin> set (map Completed xs)"
  by auto

subsection \<open>What each operation does to the subscribers and the events\<close>

lemma complete_pipe_subs_at:
  "subs_at (complete_pipe p s) q = (if q = p then [] else subs_at s q)"
  by (auto simp: complete_pipe_def subs_at_def split: option.splits)

lemma complete_pipe_trace:
  "trace (complete_pipe p s) = trace s @ map Completed (subs_at s p)"
  by (auto simp: complete_pipe_def subs_at_def split: option.splits)

lemma complete_pipe_fields [simp]:
  "next_sub (complete_pipe p s) = next_sub s"
  "isStopped (complete_pipe p s) = isStopped s"
  "world (complete_pipe p s) = world s"
  "next_pipe (complete_pipe p s) = next_pipe s"
  by (auto simp: complete_pipe_def split: option.splits)

lemma complete_pipe_observers:
  "set (observers (complete_pipe p s)) \<subseteq> set (observers s)"
  "q \<noteq> p \<Longrightarrow> q \<in> set (observers s) \<Longrightarrow> q \<in> set (observers (complete_pipe p s))"
  by (auto simp: complete_pipe_def split: option.splits dest: set_remove1_subset [THEN subsetD])

lemma consistent_complete_pipe: "consistent s \<Longrightarrow> consistent (complete_pipe p s)"
  unfolding consistent_def
  by (auto simp: complete_pipe_subs_at complete_pipe_trace complete_pipe_observers)


lemma attached_subs [simp]: "attached (sh\<lparr>subs := xs\<rparr>) w = attached sh w"
  by (simp add: attached_def)

lemma subs_at_updates [simp]:
  "subs_at (s\<lparr>trace := t\<rparr>) q = subs_at s q"
  "subs_at (s\<lparr>world := w\<rparr>) q = subs_at s q"
  "subs_at (s\<lparr>observers := os\<rparr>) q = subs_at s q"
  "subs_at (s\<lparr>isStopped := b\<rparr>) q = subs_at s q"
  "subs_at (s\<lparr>next_sub := n\<rparr>) q = subs_at s q"
  by (simp_all add: subs_at_def)

lemma deliver_alt:
  "deliver p s =
     (if passes s p then complete_pipe p (s\<lparr>trace := trace s @ map Delivered (subs_at s p)\<rparr>)
      else s)"
  by (auto simp: deliver_def passes_def subs_at_def split: option.splits)

lemma deliver_subs_at:
  "subs_at (deliver p s) q = (if q = p \<and> passes s p then [] else subs_at s q)"
  by (simp add: deliver_alt complete_pipe_subs_at)

lemma deliver_trace:
  "trace (deliver p s) =
     (if passes s p then trace s @ map Delivered (subs_at s p) @ map Completed (subs_at s p)
      else trace s)"
  by (simp add: deliver_alt complete_pipe_trace)

lemma deliver_fields [simp]:
  "next_sub (deliver p s) = next_sub s"
  "isStopped (deliver p s) = isStopped s"
  "world (deliver p s) = world s"
  "next_pipe (deliver p s) = next_pipe s"
  by (simp_all add: deliver_alt)

lemma deliver_observers:
  "set (observers (deliver p s)) \<subseteq> set (observers s)"
  "q \<noteq> p \<Longrightarrow> q \<in> set (observers s) \<Longrightarrow> q \<in> set (observers (deliver p s))"
  "\<not> passes s p \<Longrightarrow> observers (deliver p s) = observers s"
  using complete_pipe_observers [where p = p and s = "s\<lparr>trace := trace s @ map Delivered (subs_at s p)\<rparr>"]
  by (auto simp: deliver_alt)

lemma consistent_deliver:
  assumes "consistent s"
  shows "consistent (deliver p s)"
proof (cases "passes s p")
  case False
  with assms show ?thesis
    unfolding consistent_def by (simp add: deliver_subs_at deliver_trace deliver_observers)
next
  case True
  from assms have d: "distinct (subs_at s p)"
    and fresh: "\<And>q sid. sid \<in> set (subs_at s q) \<Longrightarrow> sid < next_sub s \<and> Delivered sid \<notin> set (trace s)"
    and disj: "\<And>q r. q \<noteq> r \<Longrightarrow> set (subs_at s q) \<inter> set (subs_at s r) = {}"
    and known: "\<And>sid. Delivered sid \<in> set (trace s) \<Longrightarrow> sid < next_sub s"
    and once: "\<And>sid. count_list (trace s) (Delivered sid) \<le> 1"
    and conn: "\<And>q. subs_at s q \<noteq> [] \<Longrightarrow> q \<in> set (observers s) \<and> \<not> isStopped s"
    unfolding consistent_def by blast+
  have c: "count_list (trace (deliver p s)) (Delivered sid) \<le> 1" for sid
  proof (cases "sid \<in> set (subs_at s p)")
    case True
    with fresh have "count_list (trace s) (Delivered sid) = 0"
      by simp
    with \<open>passes s p\<close> count_list_distinct_le [OF d, of sid] show ?thesis
      by (simp add: deliver_trace)
  next
    case False
    with \<open>passes s p\<close> once [of sid] show ?thesis
      by (simp add: deliver_trace)
  qed
  have f: "sid < next_sub (deliver p s) \<and> Delivered sid \<notin> set (trace (deliver p s))"
    if "sid \<in> set (subs_at (deliver p s) q)" for q sid
  proof -
    from that True have q: "q \<noteq> p" "sid \<in> set (subs_at s q)"
      by (auto simp: deliver_subs_at split: if_splits)
    with disj [of q p] have "sid \<notin> set (subs_at s p)" by auto
    with fresh [OF q(2)] True show ?thesis
      by (auto simp: deliver_trace)
  qed
  have k: "sid < next_sub (deliver p s)" if "Delivered sid \<in> set (trace (deliver p s))" for sid
    using that True known fresh by (auto simp: deliver_trace)
  have o: "q \<in> set (observers (deliver p s)) \<and> \<not> isStopped (deliver p s)"
    if "subs_at (deliver p s) q \<noteq> []" for q
  proof -
    from that True have q: "q \<noteq> p" "subs_at s q \<noteq> []"
      by (auto simp: deliver_subs_at split: if_splits)
    with conn [of q] deliver_observers(2) [of q p s] show ?thesis by simp
  qed
  have dd: "distinct (subs_at (deliver p s) q)" for q
    using assms unfolding consistent_def by (simp add: deliver_subs_at)
  have xx: "set (subs_at (deliver p s) q) \<inter> set (subs_at (deliver p s) r) = {}" if "q \<noteq> r" for q r
    using disj [OF that] by (simp add: deliver_subs_at)
  from c f k o dd xx show ?thesis
    unfolding consistent_def by blast
qed

lemma consistent_fold:
  assumes "\<And>x s. consistent s \<Longrightarrow> consistent (f x s)"
  shows "consistent s \<Longrightarrow> consistent (fold f xs s)"
  by (induction xs arbitrary: s) (simp_all add: assms)

lemma consistent_Subject_next: "consistent s \<Longrightarrow> consistent (Subject_next s)"
  unfolding Subject_next_def by (simp add: consistent_fold consistent_deliver)

lemma consistent_field_updates:
  "consistent (s\<lparr>world := w\<rparr>) = consistent s"
  by (simp add: consistent_def subs_at_def)

lemma consistent_log_OrigEnd: "consistent s \<Longrightarrow> consistent (s\<lparr>trace := trace s @ [OrigEnd]\<rparr>)"
  by (simp add: consistent_def subs_at_def)

lemma consistent_log_SubjectNext: "consistent s \<Longrightarrow> consistent (s\<lparr>trace := trace s @ [SubjectNext]\<rparr>)"
  by (simp add: consistent_def subs_at_def)

lemma consistent_rendererFactory_end: "consistent s \<Longrightarrow> consistent (snd (rendererFactory_end orig s))"
proof -
  assume "consistent s"
  obtain thrown w where o: "orig (world s) = (thrown, w)"
    by (cases "orig (world s)")
  let ?s1 = "s\<lparr>world := w, trace := trace s @ [OrigEnd]\<rparr>"
  from \<open>consistent s\<close> have 1: "consistent ?s1"
    by (simp add: consistent_def subs_at_def)
  then have "consistent (Subject_next (?s1\<lparr>trace := trace ?s1 @ [SubjectNext]\<rparr>))"
    by (intro consistent_Subject_next consistent_log_SubjectNext)
  with 1 o show ?thesis
    by (simp add: rendererFactory_end_def Let_def split: option.splits)
qed


lemma consistent_Subject_complete: "consistent s \<Longrightarrow> consistent (Subject_complete s)"
proof -
  assume "consistent s"
  have stopped: "isStopped (fold complete_pipe ps t) = isStopped t" for ps and t :: "('a, 'b) observer_state"
    by (induction ps arbitrary: t) simp_all
  have gone: "subs_at (fold complete_pipe ps t) q = (if q \<in> set ps then [] else subs_at t q)"
    for ps q and t :: "('a, 'b) observer_state"
    by (induction ps arbitrary: t) (auto simp: complete_pipe_subs_at)
  have tr: "\<exists>cs. trace (fold complete_pipe ps t) = trace t @ map Completed cs"
    for ps and t :: "('a, 'b) observer_state"
  proof (induction ps arbitrary: t)
    case Nil
    show ?case by (intro exI [of _ "[]"]) simp
  next
    case (Cons p ps)
    from Cons [of "complete_pipe p t"] obtain cs
      where "trace (fold complete_pipe ps (complete_pipe p t))
               = trace (complete_pipe p t) @ map Completed cs" by blast
    then show ?case
      by (intro exI [of _ "subs_at t p @ cs"]) (simp add: complete_pipe_trace)
  qed
  have ns: "next_sub (fold complete_pipe ps t) = next_sub t" for ps and t :: "('a, 'b) observer_state"
    by (induction ps arbitrary: t) simp_all
  let ?t = "s\<lparr>isStopped := True\<rparr>"
  from tr [of "observers s" ?t] obtain cs
    where cs: "trace (fold complete_pipe (observers s) ?t) = trace s @ map Completed cs"
    by auto
  from \<open>consistent s\<close> have conn: "subs_at s q \<noteq> [] \<Longrightarrow> q \<in> set (observers s)" for q
    unfolding consistent_def by blast
  have empty: "subs_at (Subject_complete s) q = []" for q
    using conn [of q] by (auto simp: Subject_complete_def gone)
  have t: "trace (Subject_complete s) = trace s @ map Completed cs"
    by (simp add: Subject_complete_def cs)
  have n: "next_sub (Subject_complete s) = next_sub s"
    by (simp add: Subject_complete_def ns)
  from \<open>consistent s\<close> show ?thesis
    unfolding consistent_def by (auto simp: empty t n)
qed

lemma consistent_whenRendered:
  assumes "consistent s" and unused: "pipes s (next_pipe s) = None"
  shows "consistent (snd (whenRendered el rend s))"
proof -
  have "subs_at (snd (whenRendered el rend s)) q = subs_at s q" for q
    using unused by (simp add: whenRendered_def subs_at_def)
  with \<open>consistent s\<close> show ?thesis
    unfolding consistent_def by (simp add: whenRendered_def)
qed


lemma subscribe_unknown: "pipes s p = None \<Longrightarrow> subscribe p s = s"
  by (simp add: subscribe_def)

lemma consistent_subscribe:
  assumes "consistent s"
  shows "consistent (subscribe p s)"
proof (cases "pipes s p")
  case None
  with assms show ?thesis by (simp add: subscribe_unknown)
next
  case (Some sh)
  let ?s1 = "s\<lparr>next_sub := Suc (next_sub s),
                pipes := (pipes s)(p \<mapsto> sh\<lparr>subs := subs sh @ [next_sub s]\<rparr>)\<rparr>"
  let ?s2 = "?s1\<lparr>observers := observers ?s1 @ [p]\<rparr>"
  from assms have d: "\<And>q. distinct (subs_at s q)"
    and fresh: "\<And>q sid. sid \<in> set (subs_at s q) \<Longrightarrow> sid < next_sub s \<and> Delivered sid \<notin> set (trace s)"
    and disj: "\<And>q r. q \<noteq> r \<Longrightarrow> set (subs_at s q) \<inter> set (subs_at s r) = {}"
    and known: "\<And>sid. Delivered sid \<in> set (trace s) \<Longrightarrow> sid < next_sub s"
    and once: "\<And>sid. count_list (trace s) (Delivered sid) \<le> 1"
    and conn: "\<And>q. subs_at s q \<noteq> [] \<Longrightarrow> q \<in> set (observers s) \<and> \<not> isStopped s"
    unfolding consistent_def by blast+
  have sa: "subs_at ?s1 q = (if q = p then subs_at s p @ [next_sub s] else subs_at s q)" for q
    using Some by (simp add: subs_at_def)
  have new: "next_sub s \<notin> set (subs_at s q)" for q
    using fresh [of "next_sub s" q] by auto
  have unseen: "Delivered (next_sub s) \<notin> set (trace s)"
    using known [of "next_sub s"] by auto
  have live: "consistent ?s2" if "\<not> isStopped s"
    unfolding consistent_def
  proof (intro conjI allI impI)
    fix q show "distinct (subs_at ?s2 q)"
      using d [of q] new [of q] by (auto simp: sa)
  next
    fix q sid assume "sid \<in> set (subs_at ?s2 q)"
    then show "sid < next_sub ?s2" "Delivered sid \<notin> set (trace ?s2)"
      using fresh [of sid q] unseen by (auto simp: sa less_Suc_eq split: if_splits)
  next
    fix q r :: nat assume "q \<noteq> r"
    then show "set (subs_at ?s2 q) \<inter> set (subs_at ?s2 r) = {}"
      using disj [of q r] new [of q] new [of r] by (auto simp: sa)
  next
    fix sid assume "Delivered sid \<in> set (trace ?s2)"
    then show "sid < next_sub ?s2"
      using known [of sid] by (simp add: less_Suc_eq)
  next
    fix sid show "count_list (trace ?s2) (Delivered sid) \<le> 1"
      using once [of sid] by simp
  next
    fix q assume "subs_at ?s2 q \<noteq> []"
    then show "q \<in> set (observers ?s2)" "\<not> isStopped ?s2"
      using conn [of q] that by (auto simp: sa split: if_splits)
  qed
  have joined: "consistent ?s1" if "subs sh \<noteq> []"
    unfolding consistent_def
  proof (intro conjI allI impI)
    fix q show "distinct (subs_at ?s1 q)"
      using d [of q] new [of q] by (auto simp: sa)
  next
    fix q sid assume "sid \<in> set (subs_at ?s1 q)"
    then show "sid < next_sub ?s1" "Delivered sid \<notin> set (trace ?s1)"
      using fresh [of sid q] unseen by (auto simp: sa less_Suc_eq split: if_splits)
  next
    fix q r :: nat assume "q \<noteq> r"
    then show "set (subs_at ?s1 q) \<inter> set (subs_at ?s1 r) = {}"
      using disj [of q r] new [of q] new [of r] by (auto simp: sa)
  next
    fix sid assume "Delivered sid \<in> set (trace ?s1)"
    then show "sid < next_sub ?s1"
      using known [of sid] by (simp add: less_Suc_eq)
  next
    fix sid show "count_list (trace ?s1) (Delivered sid) \<le> 1"
      using once [of sid] by simp
  next
    fix q assume "subs_at ?s1 q \<noteq> []"
    then show "q \<in> set (observers ?s1)" "\<not> isStopped ?s1"
      using conn [of q] conn [of p] that Some by (auto simp: sa subs_at_def split: if_splits)
  qed
  have late: "consistent (complete_pipe p ?s1)" if "isStopped s"
    unfolding consistent_def
  proof (intro conjI allI impI)
    fix q show "distinct (subs_at (complete_pipe p ?s1) q)"
      using d [of q] by (auto simp: complete_pipe_subs_at sa)
  next
    fix q sid assume "sid \<in> set (subs_at (complete_pipe p ?s1) q)"
    then show "sid < next_sub (complete_pipe p ?s1)"
      "Delivered sid \<notin> set (trace (complete_pipe p ?s1))"
      using fresh [of sid q]
      by (auto simp: complete_pipe_subs_at complete_pipe_trace sa less_Suc_eq split: if_splits)
  next
    fix q r :: nat assume "q \<noteq> r"
    then show "set (subs_at (complete_pipe p ?s1) q) \<inter> set (subs_at (complete_pipe p ?s1) r) = {}"
      using disj [of q r] by (auto simp: complete_pipe_subs_at sa)
  next
    fix sid assume "Delivered sid \<in> set (trace (complete_pipe p ?s1))"
    then show "sid < next_sub (complete_pipe p ?s1)"
      using known [of sid] by (auto simp: complete_pipe_trace less_Suc_eq)
  next
    fix sid show "count_list (trace (complete_pipe p ?s1)) (Delivered sid) \<le> 1"
      using once [of sid] by (simp add: complete_pipe_trace)
  next
    fix q assume "subs_at (complete_pipe p ?s1) q \<noteq> []"
    then show "q \<in> set (observers (complete_pipe p ?s1))" "\<not> isStopped (complete_pipe p ?s1)"
      using conn [of q] that by (auto simp: complete_pipe_subs_at sa split: if_splits)
  qed
  have eq: "subscribe p s =
      (if subs sh = [] then (if isStopped s then complete_pipe p ?s1 else ?s2) else ?s1)"
    using Some by (simp add: subscribe_def Let_def)
  show ?thesis
  proof (cases "subs sh = []")
    case False
    with eq have "subscribe p s = ?s1" by simp
    with joined [OF False] show ?thesis by simp
  next
    case True
    show ?thesis
    proof (cases "isStopped s")
      case stopped: True
      with eq \<open>subs sh = []\<close> have "subscribe p s = complete_pipe p ?s1" by simp
      with late [OF stopped] show ?thesis by simp
    next
      case running: False
      with eq \<open>subs sh = []\<close> have "subscribe p s = ?s2" by simp
      with live [OF running] show ?thesis by simp
    qed
  qed
qed


lemma consistent_unsubscribe:
  assumes "consistent s"
  shows "consistent (unsubscribe p sid s)"
proof (cases "pipes s p")
  case None
  with assms show ?thesis by (simp add: unsubscribe_def)
next
  case (Some sh)
  show ?thesis
  proof (cases "sid \<in> set (subs sh)")
    case False
    with Some assms show ?thesis by (simp add: unsubscribe_def)
  next
    case True
    let ?s1 = "s\<lparr>pipes := (pipes s)(p \<mapsto> sh\<lparr>subs := remove1 sid (subs sh)\<rparr>)\<rparr>"
    let ?s2 = "?s1\<lparr>observers := remove1 p (observers ?s1)\<rparr>"
    from assms have d: "\<And>q. distinct (subs_at s q)"
      and fresh: "\<And>q x. x \<in> set (subs_at s q) \<Longrightarrow> x < next_sub s \<and> Delivered x \<notin> set (trace s)"
      and disj: "\<And>q r. q \<noteq> r \<Longrightarrow> set (subs_at s q) \<inter> set (subs_at s r) = {}"
      and known: "\<And>x. Delivered x \<in> set (trace s) \<Longrightarrow> x < next_sub s"
      and once: "\<And>x. count_list (trace s) (Delivered x) \<le> 1"
      and conn: "\<And>q. subs_at s q \<noteq> [] \<Longrightarrow> q \<in> set (observers s) \<and> \<not> isStopped s"
      unfolding consistent_def by blast+
    have sp: "subs_at s p = subs sh"
      using Some by (simp add: subs_at_def)
    have sa: "subs_at ?s1 q = (if q = p then remove1 sid (subs_at s p) else subs_at s q)" for q
      using Some by (simp add: subs_at_def)
    have sub: "set (subs_at ?s1 q) \<subseteq> set (subs_at s q)" for q
      using set_remove1_subset [of sid "subs_at s p"] by (auto simp: sa)
    have common: "(\<forall>q. distinct (subs_at ?s1 q))
        \<and> (\<forall>q x. x \<in> set (subs_at ?s1 q) \<longrightarrow> x < next_sub s \<and> Delivered x \<notin> set (trace s))
        \<and> (\<forall>q r. q \<noteq> r \<longrightarrow> set (subs_at ?s1 q) \<inter> set (subs_at ?s1 r) = {})"
    proof (intro conjI allI impI)
      fix q show "distinct (subs_at ?s1 q)"
        using d [of q] by (auto simp: sa)
    next
      fix q x assume "x \<in> set (subs_at ?s1 q)"
      with sub [of q] have "x \<in> set (subs_at s q)" by blast
      then show "x < next_sub s" "Delivered x \<notin> set (trace s)"
        using fresh by blast+
    next
      fix q r :: nat assume "q \<noteq> r"
      with disj [of q r] sub [of q] sub [of r]
      show "set (subs_at ?s1 q) \<inter> set (subs_at ?s1 r) = {}" by blast
    qed
    from True have "subs sh \<noteq> []" by auto
    with conn [of p] sp have here: "p \<in> set (observers s) \<and> \<not> isStopped s"
      by simp
    have c1: "q \<in> set (observers ?s1) \<and> \<not> isStopped ?s1" if "subs_at ?s1 q \<noteq> []" for q
      using that conn [of q] here by (auto simp: sa split: if_splits)
    have c2: "q \<in> set (observers ?s2) \<and> \<not> isStopped ?s2"
      if "subs_at ?s2 q \<noteq> []" and "remove1 sid (subs sh) = []" for q
    proof -
      from that(2) sa [of q] sp
      have "subs_at ?s2 q = (if q = p then [] else subs_at s q)"
        by simp
      with that(1) have "q \<noteq> p" "subs_at s q \<noteq> []"
        by (auto split: if_splits)
      with conn [of q] show ?thesis by simp
    qed
    have w1: "consistent ?s1"
      unfolding consistent_def using common known once c1 by simp
    have w2: "consistent ?s2" if "remove1 sid (subs sh) = []"
      unfolding consistent_def using common known once c2 [OF _ that] by simp
    from Some True w1 w2 show ?thesis
      by (simp add: unsubscribe_def Let_def)
  qed
qed

lemma complete_pipe_dom: "pipes (complete_pipe p s) q = None \<longleftrightarrow> pipes s q = None"
  by (auto simp: complete_pipe_def split: option.splits)

lemma deliver_dom: "pipes (deliver p s) q = None \<longleftrightarrow> pipes s q = None"
  by (simp add: deliver_alt complete_pipe_dom)

lemma fold_complete_pipe_dom:
  "pipes (fold complete_pipe ps s) q = None \<longleftrightarrow> pipes s q = None"
  by (induction ps arbitrary: s) (simp_all add: complete_pipe_dom)

lemma fold_complete_pipe_next_pipe [simp]:
  "next_pipe (fold complete_pipe ps s) = next_pipe s"
  by (induction ps arbitrary: s) simp_all

lemma fold_deliver_dom:
  "pipes (fold deliver ps s) q = None \<longleftrightarrow> pipes s q = None"
  by (induction ps arbitrary: s) (simp_all add: deliver_dom)

lemma fold_deliver_next_pipe [simp]:
  "next_pipe (fold deliver ps s) = next_pipe s"
  by (induction ps arbitrary: s) simp_all

lemma alloc_subscribe: "alloc s \<Longrightarrow> alloc (subscribe p s)"
  by (auto simp: alloc_def subscribe_def Let_def complete_pipe_dom split: option.splits)

lemma alloc_unsubscribe: "alloc s \<Longrightarrow> alloc (unsubscribe p sid s)"
  by (auto simp: alloc_def unsubscribe_def Let_def split: option.splits)

lemma alloc_whenRendered: "alloc s \<Longrightarrow> alloc (snd (whenRendered el rend s))"
  by (simp add: alloc_def whenRendered_def)

lemma alloc_Subject_complete: "alloc s \<Longrightarrow> alloc (Subject_complete s)"
  by (simp add: alloc_def Subject_complete_def fold_complete_pipe_dom)

lemma alloc_rendererFactory_end: "alloc s \<Longrightarrow> alloc (snd (rendererFactory_end orig s))"
  by (simp add: alloc_def rendererFactory_end_def Subject_next_def fold_deliver_dom Let_def
      split: prod.splits option.splits)

lemma constructor_end: "fst (constructor end_fn w) = rendererFactory_end (origEndFn end_fn)"
  by (simp add: constructor_def origEndFn_def Let_def)

lemma consistent_alloc_step: "consistent s \<and> alloc s \<Longrightarrow> consistent (step end_fn a s) \<and> alloc (step end_fn a s)"
proof (cases a)
  case (WhenRendered el rend)
  assume "consistent s \<and> alloc s"
  then have "pipes s (next_pipe s) = None" by (simp add: alloc_def)
  with \<open>consistent s \<and> alloc s\<close> WhenRendered show ?thesis
    by (simp add: consistent_whenRendered alloc_whenRendered)
next
  case (Subscribe p)
  assume "consistent s \<and> alloc s"
  with Subscribe show ?thesis by (simp add: consistent_subscribe alloc_subscribe)
next
  case (Unsubscribe p sid)
  assume "consistent s \<and> alloc s"
  with Unsubscribe show ?thesis by (simp add: consistent_unsubscribe alloc_unsubscribe)
next
  case RenderPass
  assume "consistent s \<and> alloc s"
  with RenderPass show ?thesis
    by (simp add: constructor_end consistent_rendererFactory_end alloc_rendererFactory_end)
next
  case Destroy
  assume "consistent s \<and> alloc s"
  with Destroy show ?thesis
    by (simp add: ngOnDestroy_def consistent_Subject_complete alloc_Subject_complete)
next
  case (Host g)
  assume "consistent s \<and> alloc s"
  with Host show ?thesis
    by (simp add: consistent_field_updates alloc_def)
qed

lemma consistent_alloc_fold:
  "consistent s \<and> alloc s \<Longrightarrow> consistent (fold (step end_fn) acts s) \<and> alloc (fold (step end_fn) acts s)"
proof (induction acts arbitrary: s)
  case Nil
  then show ?case by simp
next
  case (Cons a acts)
  from consistent_alloc_step [OF Cons.prems] have "consistent (step end_fn a s) \<and> alloc (step end_fn a s)" .
  from Cons.IH [OF this] show ?case by simp
qed

lemma consistent_run: "consistent (run end_fn acts w)"
  unfolding run_def
  by (rule consistent_alloc_fold [THEN conjunct1])
    (simp add: constructor_def consistent_def alloc_def subs_at_def Let_def)


subsection \<open>What a pass delivers\<close>

lemma passes_updates [simp]:
  "passes (s\<lparr>trace := t\<rparr>) q = passes s q"
  by (simp add: passes_def split: option.splits)

lemma deliver_passes_same: "passes (deliver p s) q = passes s q"
  by (auto simp: deliver_def passes_def complete_pipe_def split: option.splits)

lemma fold_deliver_world [simp]: "world (fold deliver ps s) = world s"
  by (induction ps arbitrary: s) simp_all

lemma fold_deliver_passes: "passes (fold deliver ps s) q = passes s q"
  by (induction ps arbitrary: s) (simp_all add: deliver_passes_same)

lemma fold_deliver_subs_at:
  "subs_at (fold deliver ps s) q = (if q \<in> set ps \<and> passes s q then [] else subs_at s q)"
  by (induction ps arbitrary: s) (auto simp: deliver_subs_at deliver_passes_same)

lemma fold_deliver_notes:
  "\<exists>ns. trace (fold deliver ps s) = trace s @ ns
     \<and> (\<forall>e \<in> set ns. (\<exists>sid. e = Completed sid)
            \<or> (\<exists>sid p. e = Delivered sid \<and> p \<in> set ps \<and> passes s p \<and> sid \<in> set (subs_at s p)))"
proof (induction ps arbitrary: s)
  case Nil
  show ?case by simp
next
  case (Cons p ps)
  from Cons [of "deliver p s"] obtain ns
    where ns: "trace (fold deliver ps (deliver p s)) = trace (deliver p s) @ ns"
      "\<forall>e \<in> set ns. (\<exists>sid. e = Completed sid)
          \<or> (\<exists>sid q. e = Delivered sid \<and> q \<in> set ps \<and> passes (deliver p s) q
                \<and> sid \<in> set (subs_at (deliver p s) q))"
    by blast
  let ?here = "if passes s p then map Delivered (subs_at s p) @ map Completed (subs_at s p) else []"
  have 1: "trace (fold deliver (p # ps) s) = trace s @ (?here @ ns)"
    using ns(1) by (simp add: deliver_trace)
  have 2: "(\<exists>sid. e = Completed sid)
      \<or> (\<exists>sid q. e = Delivered sid \<and> q \<in> set (p # ps) \<and> passes s q \<and> sid \<in> set (subs_at s q))"
    if "e \<in> set (?here @ ns)" for e
  proof (cases "e \<in> set ns")
    case True
    with ns(2) show ?thesis
      by (fastforce simp: deliver_passes_same deliver_subs_at split: if_splits)
  next
    case False
    with that show ?thesis
      by (auto split: if_splits)
  qed
  from 1 2 show ?case by blast
qed

lemma fold_deliver_reaches:
  assumes "p \<in> set ps" "passes s p" "sid \<in> set (subs_at s p)"
  shows "Delivered sid \<in> set (trace (fold deliver ps s))"
  using assms
proof (induction ps arbitrary: s)
  case Nil
  then show ?case by simp
next
  case (Cons q ps)
  obtain ns where ns: "trace (fold deliver ps (deliver q s)) = trace (deliver q s) @ ns"
    using fold_deliver_notes [of ps "deliver q s"] by blast
  show ?case
  proof (cases "q = p")
    case True
    with Cons.prems have "Delivered sid \<in> set (trace (deliver q s))"
      by (simp add: deliver_trace)
    with ns show ?thesis by simp
  next
    case False
    with Cons.prems have "p \<in> set ps" "passes (deliver q s) p" "sid \<in> set (subs_at (deliver q s) p)"
      by (simp_all add: deliver_passes_same deliver_subs_at)
    from Cons.IH [OF this] show ?thesis by simp
  qed
qed

lemma delivered_once: "count_list (trace (run end_fn acts w)) (Delivered sid) \<le> 1"
  using consistent_run [of end_fn acts w] unfolding consistent_def by blast

subsection \<open>The replacement hook\<close>

lemma Subject_next_world [simp]: "world (Subject_next s) = world s"
  by (simp add: Subject_next_def)

lemma rendererFactory_end_original:
  "map_prod id world (rendererFactory_end orig s) = orig (world s)"
  by (cases "orig (world s)")
    (simp add: rendererFactory_end_def Let_def split: option.splits)

lemma rendererFactory_end_trace:
  "\<exists>notes. trace (snd (rendererFactory_end orig s)) = trace s @ OrigEnd # notes
     \<and> OrigEnd \<notin> set notes
     \<and> (notes = [] \<or> notes \<noteq> [] \<and> fst (orig (world s)) = None \<and> observers s \<noteq> []
            \<and> hd notes = SubjectNext \<and> SubjectNext \<notin> set (tl notes))"
proof -
  obtain thrown w where o: "orig (world s) = (thrown, w)"
    by (cases "orig (world s)")
  let ?s2 = "s\<lparr>world := w, trace := trace s @ [OrigEnd, SubjectNext]\<rparr>"
  show ?thesis
  proof (cases "thrown = None \<and> observers s \<noteq> []")
    case False
    with o have "trace (snd (rendererFactory_end orig s)) = trace s @ [OrigEnd]"
      by (auto simp: rendererFactory_end_def Let_def split: option.splits)
    then show ?thesis by simp
  next
    case True
    with o have e: "snd (rendererFactory_end orig s) = Subject_next ?s2"
      by (simp add: rendererFactory_end_def Let_def)
    from fold_deliver_notes [of "observers ?s2" ?s2] obtain ns
      where "trace (fold deliver (observers ?s2) ?s2) = trace ?s2 @ ns"
        "\<forall>e \<in> set ns. (\<exists>sid. e = Completed sid) \<or> (\<exists>sid. e = Delivered sid)"
      by blast
    then have "\<exists>ns. trace (Subject_next ?s2) = trace s @ OrigEnd # SubjectNext # ns
        \<and> OrigEnd \<notin> set ns \<and> SubjectNext \<notin> set ns"
      by (cases "isStopped s") (auto simp: Subject_next_def)
    with e True o show ?thesis
      by auto
  qed
qed


subsection \<open>After teardown\<close>

lemma quiet_simps [simp]:
  "quiet []" "quiet [OrigEnd]" "quiet (map Completed cs)"
  "quiet (xs @ ys) \<longleftrightarrow> quiet xs \<and> quiet ys"
  by (auto simp: quiet_def)

lemma fold_complete_pipe_trace:
  "\<exists>cs. trace (fold complete_pipe ps s) = trace s @ map Completed cs"
proof (induction ps arbitrary: s)
  case Nil
  show ?case by (intro exI [of _ "[]"]) simp
next
  case (Cons p ps)
  from Cons [of "complete_pipe p s"] obtain cs
    where "trace (fold complete_pipe ps (complete_pipe p s))
             = trace (complete_pipe p s) @ map Completed cs" by blast
  then show ?case
    by (intro exI [of _ "subs_at s p @ cs"]) (simp add: complete_pipe_trace)
qed

lemma Subject_complete_closes:
  "closed_channel (Subject_complete s)"
  "\<exists>cs. trace (Subject_complete s) = trace s @ map Completed cs"
proof -
  have "isStopped (fold complete_pipe ps t) = isStopped t" for ps and t :: "('a, 'b) observer_state"
    by (induction ps arbitrary: t) simp_all
  then show "closed_channel (Subject_complete s)"
    by (simp add: closed_channel_def Subject_complete_def)
  from fold_complete_pipe_trace [of "observers s" "s\<lparr>isStopped := True\<rparr>"]
  show "\<exists>cs. trace (Subject_complete s) = trace s @ map Completed cs"
    by (simp add: Subject_complete_def)
qed

lemma complete_pipe_closed: "closed_channel s \<Longrightarrow> closed_channel (complete_pipe p s)"
  by (auto simp: closed_channel_def complete_pipe_def split: option.splits)

lemma closed_step:
  assumes "closed_channel s"
  shows "closed_channel (step end_fn a s)
     \<and> (\<exists>tail. trace (step end_fn a s) = trace s @ tail \<and> quiet tail)"
proof (cases a)
  case (WhenRendered el rend)
  with assms show ?thesis
    by (simp add: closed_channel_def whenRendered_def)
next
  case (Subscribe p)
  show ?thesis
  proof (cases "pipes s p")
    case None
    with assms Subscribe show ?thesis by (simp add: subscribe_unknown)
  next
    case (Some sh)
    let ?s1 = "s\<lparr>next_sub := Suc (next_sub s),
                  pipes := (pipes s)(p \<mapsto> sh\<lparr>subs := subs sh @ [next_sub s]\<rparr>)\<rparr>"
    from assms have c1: "closed_channel ?s1"
      by (simp add: closed_channel_def)
    from assms Some have eq: "subscribe p s = (if subs sh = [] then complete_pipe p ?s1 else ?s1)"
      by (simp add: subscribe_def Let_def closed_channel_def)
    show ?thesis
    proof (cases "subs sh = []")
      case True
      with eq have e: "step end_fn a s = complete_pipe p ?s1"
        using Subscribe by simp
      have "trace (complete_pipe p ?s1) = trace s @ map Completed (subs_at ?s1 p)"
        by (simp add: complete_pipe_trace)
      moreover have "quiet (map Completed (subs_at ?s1 p))"
        by simp
      ultimately have "\<exists>tail. trace (complete_pipe p ?s1) = trace s @ tail \<and> quiet tail"
        by blast
      with complete_pipe_closed [OF c1, of p] show ?thesis
        unfolding e by blast
    next
      case False
      with eq have e: "step end_fn a s = ?s1"
        using Subscribe by simp
      have "trace ?s1 = trace s @ [] \<and> quiet []"
        by simp
      then have "\<exists>tail. trace ?s1 = trace s @ tail \<and> quiet tail"
        by blast
      with c1 show ?thesis
        unfolding e by blast
    qed
  qed
next
  case (Unsubscribe p sid)
  with assms show ?thesis
    by (auto simp: closed_channel_def unsubscribe_def Let_def split: option.splits)
next
  case RenderPass
  obtain thrown w where o: "origEndFn end_fn (world s) = (thrown, w)"
    by (cases "origEndFn end_fn (world s)")
  with assms RenderPass show ?thesis
    by (auto simp: closed_channel_def constructor_end rendererFactory_end_def Let_def
        split: option.splits)
next
  case Destroy
  with Subject_complete_closes [of s] show ?thesis
    by (auto simp: ngOnDestroy_def)
next
  case (Host g)
  with assms show ?thesis
    by (simp add: closed_channel_def)
qed

lemma closed_run:
  "closed_channel s \<Longrightarrow>
     \<exists>tail. trace (fold (step end_fn) acts s) = trace s @ tail \<and> quiet tail"
proof (induction acts arbitrary: s)
  case Nil
  show ?case by simp
next
  case (Cons a acts)
  from closed_step [OF Cons.prems, of end_fn a] obtain t1
    where 1: "closed_channel (step end_fn a s)" "trace (step end_fn a s) = trace s @ t1" "quiet t1"
    by blast
  from Cons.IH [OF 1(1)] obtain t2
    where 2: "trace (fold (step end_fn) acts (step end_fn a s)) = trace (step end_fn a s) @ t2" "quiet t2"
    by blast
  from 1 2 show ?case
    by (intro exI [of _ "t1 @ t2"]) simp
qed


lemma rendererFactory_end_world:
  "world (snd (rendererFactory_end orig s)) = snd (orig (world s))"
  by (cases "orig (world s)") (simp add: rendererFactory_end_def Let_def split: option.splits)

lemma rendererFactory_end_cases:
  obtains
    (silent) "fst (orig (world s)) \<noteq> None \<or> observers s = [] \<or> isStopped s"
      "\<exists>notes. trace (snd (rendererFactory_end orig s)) = trace s @ notes
         \<and> (\<forall>sid. Delivered sid \<notin> set notes)"
  | (emits) "fst (orig (world s)) = None" "observers s \<noteq> []" "\<not> isStopped s"
      "snd (rendererFactory_end orig s) =
         fold deliver (observers s)
           (s\<lparr>world := snd (orig (world s)), trace := trace s @ [OrigEnd, SubjectNext]\<rparr>)"
proof (cases "fst (orig (world s)) = None \<and> observers s \<noteq> [] \<and> \<not> isStopped s")
  case True
  then have "snd (rendererFactory_end orig s) =
      fold deliver (observers s)
        (s\<lparr>world := snd (orig (world s)), trace := trace s @ [OrigEnd, SubjectNext]\<rparr>)"
    by (cases "orig (world s)") (simp add: rendererFactory_end_def Subject_next_def Let_def)
  with True show ?thesis by (intro emits) simp_all
next
  case False
  obtain thrown w where o: "orig (world s) = (thrown, w)"
    by (cases "orig (world s)")
  have "trace (snd (rendererFactory_end orig s)) = trace s @ [OrigEnd]
      \<or> trace (snd (rendererFactory_end orig s)) = trace s @ [OrigEnd, SubjectNext]"
    using False o
    by (auto simp: rendererFactory_end_def Subject_next_def Let_def split: option.splits)
  then have "\<exists>notes. trace (snd (rendererFactory_end orig s)) = trace s @ notes
      \<and> (\<forall>sid. Delivered sid \<notin> set notes)"
    by (elim disjE) fastforce+
  with False show ?thesis by (intro silent) auto
qed

lemmas observer_defs =
  run_def constructor_def origEndFn_def rendererFactory_end_def Subject_next_def
  Subject_complete_def deliver_def complete_pipe_def subscribe_def unsubscribe_def
  whenRendered_def ngOnDestroy_def attached_def noop_def Let_def

text \<open>
  C5. Whenever the installed hook runs, the events it adds start with the invocation
  of the original hook; \<open>subject.next()\<close> is called, and a subscriber handed a value,
  only after that, only when the original hook returned normally and only when the
  subject had at least one observer. In every run, each subscriber of a
  \<open>whenRendered\<close> observable is handed at most one value.
\<close>

theorem render_signal_after_original_hook:
  "(\<exists>notes. trace (snd (fst (constructor end_fn w0) s)) = trace s @ OrigEnd # notes
      \<and> (SubjectNext \<in> set notes \<or> (\<exists>sid. Delivered sid \<in> set notes) \<longrightarrow>
            fst (origEndFn end_fn (world s)) = None \<and> observers s \<noteq> []))
   \<and> count_list (trace (run end_fn acts w)) (Delivered sid) \<le> 1"
proof -
  from rendererFactory_end_trace [of "origEndFn end_fn" s] obtain added
    where "trace (snd (rendererFactory_end (origEndFn end_fn) s)) = trace s @ OrigEnd # added"
      "added = [] \<or> added \<noteq> [] \<and> fst (origEndFn end_fn (world s)) = None \<and> observers s \<noteq> []
            \<and> hd added = SubjectNext \<and> SubjectNext \<notin> set (tl added)"
    by blast
  then have "trace (snd (fst (constructor end_fn w0) s)) = trace s @ OrigEnd # added
      \<and> (SubjectNext \<in> set added \<or> (\<exists>sid. Delivered sid \<in> set added) \<longrightarrow>
            fst (origEndFn end_fn (world s)) = None \<and> observers s \<noteq> [])"
    by (auto simp: constructor_end)
  with delivered_once [of end_fn acts w sid] show ?thesis
    by blast
qed

theorem render_signal_after_original_hook_witness:
  "(\<exists>notes.
      trace (snd (fst (constructor (Some (\<lambda>w :: bool. (None :: unit option, w))) True)
        (run (Some (\<lambda>w :: bool. (None :: unit option, w)))
           [WhenRendered () (\<lambda>w e. if w then Some () else None), Subscribe 0] True)))
      = trace (run (Some (\<lambda>w :: bool. (None :: unit option, w)))
           [WhenRendered () (\<lambda>w e. if w then Some () else None), Subscribe 0] True)
        @ OrigEnd # notes
      \<and> SubjectNext \<in> set notes)
   \<and> fst (origEndFn (Some (\<lambda>w :: bool. (None :: unit option, w))) True) = None
   \<and> observers (run (Some (\<lambda>w :: bool. (None :: unit option, w)))
           [WhenRendered () (\<lambda>w e. if w then Some () else None), Subscribe 0] True) \<noteq> []
   \<and> count_list (trace (run (Some (\<lambda>w :: bool. (None :: unit option, w)))
           [WhenRendered () (\<lambda>w e. if w then Some () else None), Subscribe 0, RenderPass,
            RenderPass] True)) (Delivered 0) \<le> 1"
  using render_signal_after_original_hook
    [where end_fn = "Some (\<lambda>w :: bool. (None :: unit option, w))" and ?w0.0 = True
       and s = "run (Some (\<lambda>w :: bool. (None :: unit option, w)))
           [WhenRendered () (\<lambda>w e. if w then Some () else None), Subscribe 0] True"
       and acts = "[WhenRendered () (\<lambda>w e. if w then Some () else None), Subscribe 0, RenderPass,
            RenderPass]" and w = True and sid = 0]
  by (simp add: observer_defs)

lemma alloc_run: "alloc (run end_fn acts w)"
  unfolding run_def
  by (rule consistent_alloc_fold [THEN conjunct2])
    (simp add: constructor_def consistent_def alloc_def subs_at_def Let_def)

subsection \<open>An observable keeps its element and its renderer\<close>

lemma source_of_updates [simp]:
  "source_of (s\<lparr>trace := t\<rparr>) p = source_of s p"
  "source_of (s\<lparr>world := w\<rparr>) p = source_of s p"
  "source_of (s\<lparr>observers := os\<rparr>) p = source_of s p"
  "source_of (s\<lparr>isStopped := b\<rparr>) p = source_of s p"
  "source_of (s\<lparr>next_sub := n\<rparr>) p = source_of s p"
  by (simp_all add: source_of_def)

lemma source_of_complete_pipe [simp]: "source_of (complete_pipe q s) p = source_of s p"
  by (auto simp: source_of_def complete_pipe_def split: option.splits)

lemma source_of_deliver [simp]: "source_of (deliver q s) p = source_of s p"
  by (simp add: deliver_alt)

lemma source_of_fold_deliver [simp]: "source_of (fold deliver ps s) p = source_of s p"
  by (induction ps arbitrary: s) simp_all

lemma source_of_fold_complete_pipe [simp]: "source_of (fold complete_pipe ps s) p = source_of s p"
  by (induction ps arbitrary: s) simp_all

lemma source_of_Subject_complete [simp]: "source_of (Subject_complete s) p = source_of s p"
  by (simp add: Subject_complete_def)

lemma source_of_subscribe [simp]: "source_of (subscribe q s) p = source_of s p"
proof (cases "pipes s q")
  case None
  then show ?thesis by (simp add: subscribe_unknown)
next
  case (Some sh)
  let ?s1 = "s\<lparr>next_sub := Suc (next_sub s),
                pipes := (pipes s)(q \<mapsto> sh\<lparr>subs := subs sh @ [next_sub s]\<rparr>)\<rparr>"
  have 1: "source_of ?s1 p = source_of s p"
    using Some by (simp add: source_of_def)
  have "subscribe q s = complete_pipe q ?s1 \<or> subscribe q s = ?s1\<lparr>observers := observers ?s1 @ [q]\<rparr>
      \<or> subscribe q s = ?s1"
    using Some by (simp add: subscribe_def Let_def)
  then show ?thesis
  proof (elim disjE)
    assume "subscribe q s = complete_pipe q ?s1"
    then have "source_of (subscribe q s) p = source_of ?s1 p"
      by (simp only: source_of_complete_pipe)
    with 1 show ?thesis by simp
  next
    assume "subscribe q s = ?s1\<lparr>observers := observers ?s1 @ [q]\<rparr>"
    then have "source_of (subscribe q s) p = source_of ?s1 p"
      by (simp only: source_of_updates)
    with 1 show ?thesis by simp
  next
    assume "subscribe q s = ?s1"
    with 1 show ?thesis by simp
  qed
qed

lemma source_of_unsubscribe [simp]: "source_of (unsubscribe q sid s) p = source_of s p"
  by (auto simp: unsubscribe_def source_of_def Let_def split: option.splits)

lemma source_of_Subject_next [simp]: "source_of (Subject_next s) p = source_of s p"
  by (simp add: Subject_next_def)

lemma source_of_rendererFactory_end [simp]:
  "source_of (snd (rendererFactory_end orig s)) p = source_of s p"
  by (cases "orig (world s)")
    (simp add: rendererFactory_end_def Let_def split: option.splits)

lemma next_pipe_subscribe [simp]: "next_pipe (subscribe q s) = next_pipe s"
  by (auto simp: subscribe_def Let_def split: option.splits)

lemma next_pipe_unsubscribe [simp]: "next_pipe (unsubscribe q sid s) = next_pipe s"
  by (auto simp: unsubscribe_def Let_def split: option.splits)

lemma next_pipe_Subject_complete [simp]: "next_pipe (Subject_complete s) = next_pipe s"
  by (simp add: Subject_complete_def)

lemma next_pipe_rendererFactory_end [simp]:
  "next_pipe (snd (rendererFactory_end orig s)) = next_pipe s"
  by (cases "orig (world s)")
    (simp add: rendererFactory_end_def Subject_next_def Let_def split: option.splits)

lemma step_keeps_source:
  assumes "p < next_pipe s"
  shows "source_of (step end_fn a s) p = source_of s p \<and> p < next_pipe (step end_fn a s)"
proof (cases a)
  case (WhenRendered el rend)
  with assms show ?thesis
    by (simp add: whenRendered_def source_of_def)
next
  case (Host g)
  with assms show ?thesis
    by (simp add: source_of_def)
qed (use assms in \<open>simp_all add: ngOnDestroy_def\<close>)

lemma run_keeps_source:
  "p < next_pipe s \<Longrightarrow> source_of (fold (step end_fn) acts s) p = source_of s p"
proof (induction acts arbitrary: s)
  case Nil
  show ?case by simp
next
  case (Cons a acts)
  from step_keeps_source [OF Cons.prems, of end_fn a]
  have "source_of (step end_fn a s) p = source_of s p" "p < next_pipe (step end_fn a s)"
    by simp_all
  with Cons.IH [of "step end_fn a s"] show ?case by simp
qed

subsection \<open>Values are handed out in render passes only\<close>

lemma subscribe_trace: "\<exists>cs. trace (subscribe p s) = trace s @ map Completed cs"
proof (cases "pipes s p")
  case None
  then show ?thesis by (intro exI [of _ "[]"]) (simp add: subscribe_unknown)
next
  case (Some sh)
  let ?s1 = "s\<lparr>next_sub := Suc (next_sub s),
                pipes := (pipes s)(p \<mapsto> sh\<lparr>subs := subs sh @ [next_sub s]\<rparr>)\<rparr>"
  have "trace (subscribe p s) = trace s @ map Completed []
      \<or> trace (subscribe p s) = trace s @ map Completed (subs_at ?s1 p)"
    using Some by (auto simp: subscribe_def Let_def complete_pipe_trace)
  then show ?thesis by blast
qed

lemma step_outside_pass:
  assumes "a \<noteq> RenderPass"
  shows "\<exists>cs. trace (step end_fn a s) = trace s @ map Completed cs"
proof (cases a)
  case (WhenRendered el rend)
  then show ?thesis by (intro exI [of _ "[]"]) (simp add: whenRendered_def)
next
  case (Subscribe p)
  with subscribe_trace [of p s] show ?thesis by simp
next
  case (Unsubscribe p sid)
  then show ?thesis
    by (intro exI [of _ "[]"]) (auto simp: unsubscribe_def Let_def split: option.splits)
next
  case RenderPass
  with assms show ?thesis by simp
next
  case Destroy
  with Subject_complete_closes(2) [of s] show ?thesis by (simp add: ngOnDestroy_def)
next
  case (Host g)
  then show ?thesis by (intro exI [of _ "[]"]) simp
qed

lemma pass_delivery:
  assumes cs: "consistent s" and s': "s' = snd (rendererFactory_end orig s)"
  shows "\<exists>added. trace s' = trace s @ added
     \<and> (\<forall>sid. Delivered sid \<in> set added \<longrightarrow>
           fst (orig (world s)) = None
           \<and> (\<exists>p sh. pipes s p = Some sh \<and> sid \<in> set (subs sh) \<and> attached sh (world s')))
     \<and> (\<forall>p sh sid. pipes s p = Some sh \<and> sid \<in> set (subs sh) \<and> attached sh (world s')
             \<and> fst (orig (world s)) = None
           \<longrightarrow> count_list added (Delivered sid) = 1)"
proof -
  from cs have cs': "consistent s'"
    unfolding s' by (rule consistent_rendererFactory_end)
  have w': "world s' = snd (orig (world s))"
    unfolding s' by (rule rendererFactory_end_world)
  from cs have held: "sid \<in> set (subs_at s p) \<Longrightarrow>
      Delivered sid \<notin> set (trace s) \<and> p \<in> set (observers s) \<and> \<not> isStopped s" for sid p
    unfolding consistent_def by (metis empty_iff empty_set)
  from cs' have once: "count_list (trace s') (Delivered sid) \<le> 1" for sid
    unfolding consistent_def by blast
  show ?thesis
  proof (cases rule: rendererFactory_end_cases [of orig s])
    case silent
    from silent(2) obtain added
      where added: "trace s' = trace s @ added" "\<forall>sid. Delivered sid \<notin> set added"
      unfolding s' by blast
    have "False" if "pipes s p = Some sh" "sid \<in> set (subs sh)"
      "fst (orig (world s)) = None" for p sh sid
    proof -
      from that(1,2) have "sid \<in> set (subs_at s p)" by (simp add: subs_at_def)
      from held [OF this] that(3) silent(1) show False by auto
    qed
    with added show ?thesis by blast
  next
    case emits
    let ?s2 = "s\<lparr>world := snd (orig (world s)), trace := trace s @ [OrigEnd, SubjectNext]\<rparr>"
    from emits(4) have f: "s' = fold deliver (observers s) ?s2"
      unfolding s' .
    from fold_deliver_notes [of "observers s" ?s2] obtain ns
      where ns: "trace s' = trace ?s2 @ ns"
        "\<forall>e \<in> set ns. (\<exists>sid. e = Completed sid)
           \<or> (\<exists>sid p. e = Delivered sid \<and> p \<in> set (observers s) \<and> passes ?s2 p
                 \<and> sid \<in> set (subs_at ?s2 p))"
      unfolding f by auto
    let ?added = "[OrigEnd, SubjectNext] @ ns"
    have t: "trace s' = trace s @ ?added"
      using ns(1) by simp
    have a: "\<exists>p sh. pipes s p = Some sh \<and> sid \<in> set (subs sh) \<and> attached sh (world s')"
      if "Delivered sid \<in> set ?added" for sid
    proof -
      from that have "Delivered sid \<in> set ns" by simp
      with ns(2) obtain p where "passes ?s2 p" "sid \<in> set (subs_at ?s2 p)"
        by blast
      then show ?thesis
        by (auto simp: passes_def subs_at_def w' split: option.splits)
    qed
    have b: "count_list ?added (Delivered sid) = 1"
      if "pipes s p = Some sh" "sid \<in> set (subs sh)" "attached sh (world s')" for p sh sid
    proof -
      from that(1,2) have in_s: "sid \<in> set (subs_at s p)" by (simp add: subs_at_def)
      from held [OF this] have h: "Delivered sid \<notin> set (trace s)" "p \<in> set (observers s)"
        by simp_all
      have "passes ?s2 p"
        using that(1,3) by (simp add: passes_def w')
      moreover have "sid \<in> set (subs_at ?s2 p)"
        using in_s by (simp add: subs_at_def)
      ultimately have "Delivered sid \<in> set (trace s')"
        unfolding f using h(2) by (intro fold_deliver_reaches [of p]) simp_all
      with h(1) t have "Delivered sid \<in> set ?added" by auto
      then have "count_list ?added (Delivered sid) \<noteq> 0"
        by (simp only: count_list_0_iff not_not)
      moreover from once [of sid] t h(1) have "count_list ?added (Delivered sid) \<le> 1"
        by simp
      ultimately show ?thesis by linarith
    qed
    from t a b emits(1) show ?thesis by blast
  qed
qed

text \<open>
  C6 (as amended). Let \<open>whenRendered(element, renderer)\<close> be called in a state a run
  has reached, let anything happen afterwards, and look at the next thing that
  happens. The observable is still the one made for this element and this renderer.
  A subscriber is handed a value only when that next thing is a render pass whose
  original hook returned normally, and only a subscriber that an observable holds
  whose element has a parent at the end of the pass; for the subscribers this
  observable holds, that is \<open>renderer.parentNode(element)\<close> not being \<open>null\<close>. In such a
  pass every subscriber this observable holds is handed exactly one value, the one of
  this pass. No subscriber is ever handed more than one value. (What the observable
  as a whole delivers is not one event: it delivers none when no such pass comes
  while it holds subscribers, and it delivers again to subscribers that arrive after
  a delivery.)
\<close>

theorem whenRendered_notifies_when_attached:
  assumes "s0 = run end_fn acts0 w"
    and "whenRendered el rend s0 = (p, s1)"
    and "s = fold (step end_fn) acts s1"
    and "s' = step end_fn a s"
  shows "\<exists>sh added. pipes s p = Some sh \<and> element sh = el \<and> renderer sh = rend
     \<and> trace s' = trace s @ added
     \<and> (\<forall>sid. Delivered sid \<in> set added \<longrightarrow>
           a = RenderPass \<and> fst (origEndFn end_fn (world s)) = None
           \<and> (\<exists>q held. pipes s q = Some held \<and> sid \<in> set (subs held)
                 \<and> renderer held (world s') (element held) \<noteq> None))
     \<and> (\<forall>sid \<in> set (subs sh). Delivered sid \<in> set added \<longrightarrow> rend (world s') el \<noteq> None)
     \<and> (a = RenderPass \<and> fst (origEndFn end_fn (world s)) = None \<and> rend (world s') el \<noteq> None
           \<longrightarrow> (\<forall>sid \<in> set (subs sh). count_list added (Delivered sid) = 1))
     \<and> (\<forall>sid. count_list (trace s') (Delivered sid) \<le> 1)"
proof -
  have s1: "s1 = step end_fn (WhenRendered el rend) s0" and p: "p = next_pipe s0"
    using assms(2) by (auto simp: whenRendered_def)
  have reach: "s = run end_fn (acts0 @ WhenRendered el rend # acts) w"
    unfolding assms(3) s1 assms(1) by (simp add: run_def)
  have reach': "s' = run end_fn ((acts0 @ WhenRendered el rend # acts) @ [a]) w"
    unfolding assms(4) reach by (simp add: run_def)
  have cs: "consistent s"
    unfolding reach by (rule consistent_run)
  have once: "count_list (trace s') (Delivered sid) \<le> 1" for sid
    unfolding reach' by (rule delivered_once)
  have "source_of s1 p = Some (el, rend)" "p < next_pipe s1"
    using assms(2) by (auto simp: whenRendered_def source_of_def)
  with run_keeps_source [of p s1 end_fn acts] have "source_of s p = Some (el, rend)"
    unfolding assms(3) by simp
  then obtain sh where sh: "pipes s p = Some sh" "element sh = el" "renderer sh = rend"
    by (auto simp: source_of_def)
  from cs have disj: "q \<noteq> r \<Longrightarrow> set (subs_at s q) \<inter> set (subs_at s r) = {}" for q r
    unfolding consistent_def by blast
  show ?thesis
  proof (cases "a = RenderPass")
    case False
    from step_outside_pass [OF False, of end_fn s] obtain cs'
      where "trace s' = trace s @ map Completed cs'"
      unfolding assms(4) by blast
    moreover have "Delivered sid \<notin> set (map Completed cs')" for sid
      by auto
    ultimately show ?thesis
      using sh once False by blast
  next
    case True
    then have s': "s' = snd (rendererFactory_end (origEndFn end_fn) s)"
      using assms(4) by simp
    from pass_delivery [OF cs s'] obtain added
      where added: "trace s' = trace s @ added"
        "\<And>sid. Delivered sid \<in> set added \<Longrightarrow>
           fst (origEndFn end_fn (world s)) = None
           \<and> (\<exists>q held. pipes s q = Some held \<and> sid \<in> set (subs held) \<and> attached held (world s'))"
        "\<And>q held sid. pipes s q = Some held \<Longrightarrow> sid \<in> set (subs held) \<Longrightarrow>
           attached held (world s') \<Longrightarrow> fst (origEndFn end_fn (world s)) = None \<Longrightarrow>
           count_list added (Delivered sid) = 1"
      by blast
    have mine: "rend (world s') el \<noteq> None" if "sid \<in> set (subs sh)" "Delivered sid \<in> set added" for sid
    proof -
      from added(2) [OF that(2)] obtain q held
        where q: "pipes s q = Some held" "sid \<in> set (subs held)" "attached held (world s')"
        by blast
      have "q = p"
      proof (rule ccontr)
        assume "q \<noteq> p"
        from disj [OF this] q(1,2) sh(1) that(1) show False
          by (auto simp: subs_at_def)
      qed
      with q sh show ?thesis by (simp add: attached_def)
    qed
    have all: "count_list added (Delivered sid) = 1"
      if "fst (origEndFn end_fn (world s)) = None" "rend (world s') el \<noteq> None"
        "sid \<in> set (subs sh)" for sid
      using added(3) [OF sh(1) that(3) _ that(1)] that(2) sh by (simp add: attached_def)
    from added(2) have only: "a = RenderPass \<and> fst (origEndFn end_fn (world s)) = None
        \<and> (\<exists>q held. pipes s q = Some held \<and> sid \<in> set (subs held)
              \<and> renderer held (world s') (element held) \<noteq> None)"
      if "Delivered sid \<in> set added" for sid
      using that True by (fastforce simp: attached_def)
    from sh added(1) only mine all once show ?thesis
      by blast
  qed
qed

theorem whenRendered_notifies_when_attached_witness:
  "\<exists>sh added.
     pipes (fold (step (Some (\<lambda>w :: bool. (None :: unit option, w)))) [Subscribe 0, Subscribe 0]
        (snd (whenRendered () (\<lambda>w e. if w then Some () else None)
           (run (Some (\<lambda>w :: bool. (None :: unit option, w))) [] True)))) 0 = Some sh
     \<and> subs sh = [0, 1]
     \<and> (\<lambda>w e. if w then Some () else None)
          (world (step (Some (\<lambda>w :: bool. (None :: unit option, w))) RenderPass
             (fold (step (Some (\<lambda>w :: bool. (None :: unit option, w)))) [Subscribe 0, Subscribe 0]
                (snd (whenRendered () (\<lambda>w e. if w then Some () else None)
                   (run (Some (\<lambda>w :: bool. (None :: unit option, w))) [] True)))))) () \<noteq> None
     \<and> fst (origEndFn (Some (\<lambda>w :: bool. (None :: unit option, w))) True) = None
     \<and> trace (step (Some (\<lambda>w :: bool. (None :: unit option, w))) RenderPass
          (fold (step (Some (\<lambda>w :: bool. (None :: unit option, w)))) [Subscribe 0, Subscribe 0]
             (snd (whenRendered () (\<lambda>w e. if w then Some () else None)
                (run (Some (\<lambda>w :: bool. (None :: unit option, w))) [] True)))))
        = trace (fold (step (Some (\<lambda>w :: bool. (None :: unit option, w)))) [Subscribe 0, Subscribe 0]
             (snd (whenRendered () (\<lambda>w e. if w then Some () else None)
                (run (Some (\<lambda>w :: bool. (None :: unit option, w))) [] True)))) @ added
     \<and> count_list added (Delivered 0) = 1 \<and> count_list added (Delivered 1) = 1"
proof -
  let ?end = "Some (\<lambda>w :: bool. (None :: unit option, w))"
  let ?rend = "\<lambda>(w :: bool) (e :: unit). if w then Some () else None"
  let ?s0 = "run ?end [] True :: (bool, unit) observer_state"
  have made: "whenRendered () ?rend ?s0 = (0, snd (whenRendered () ?rend ?s0))"
    by (simp add: observer_defs)
  from whenRendered_notifies_when_attached
    [where end_fn = ?end and ?acts0.0 = "[]" and w = True and acts = "[Subscribe 0, Subscribe 0]"
       and a = RenderPass, OF refl made refl refl]
  show ?thesis
    by (simp add: observer_defs)
qed

text \<open>
  C6 as it is written fails: the observable does not deliver exactly one event. Here
  one observable, with two subscribers, sees a pass without a parent for its element
  and then a pass with one, which hands each of the two a value; a third subscriber
  arrives, and the next pass hands it a value too.
\<close>

theorem whenRendered_delivers_again_counterexample:
  "trace (run (None :: (bool \<Rightarrow> unit option \<times> bool) option)
     [WhenRendered () (\<lambda>w e. if w then Some () else None), Subscribe 0, Subscribe 0, RenderPass,
      Host (\<lambda>w. True), RenderPass, Subscribe 0, RenderPass] False)
   = [OrigEnd, SubjectNext,
      OrigEnd, SubjectNext, Delivered 0, Delivered 1, Completed 0, Completed 1,
      OrigEnd, SubjectNext, Delivered 2, Completed 2]"
  by (simp add: observer_defs)

text \<open>
  C7. \<open>ngOnDestroy\<close> only completes subscribers, and whatever happens afterwards
  (render passes that call the installed hook, new observables, new subscribers,
  another \<open>ngOnDestroy\<close>) never calls \<open>subject.next()\<close> again and hands no value to any
  subscriber.
\<close>

theorem ngOnDestroy_closes_channel:
  "(\<exists>cs. trace (ngOnDestroy s) = trace s @ map Completed cs)
   \<and> (\<exists>tail. trace (fold (step end_fn) acts (ngOnDestroy s)) = trace (ngOnDestroy s) @ tail
         \<and> SubjectNext \<notin> set tail \<and> (\<forall>sid. Delivered sid \<notin> set tail))"
proof -
  have "closed_channel (ngOnDestroy s)"
    by (simp add: ngOnDestroy_def Subject_complete_closes)
  from closed_run [OF this, of end_fn acts] Subject_complete_closes(2) [of s] show ?thesis
    by (simp add: ngOnDestroy_def quiet_def)
qed

theorem ngOnDestroy_closes_channel_witness:
  "trace (fold (step (None :: (bool \<Rightarrow> unit option \<times> bool) option))
       [RenderPass, Subscribe 0, WhenRendered () (\<lambda>w e. if w then Some () else None), Subscribe 1,
        RenderPass]
       (ngOnDestroy (run None [WhenRendered () (\<lambda>w e. if w then Some () else None), Subscribe 0] True)))
   = trace (ngOnDestroy (run (None :: (bool \<Rightarrow> unit option \<times> bool) option)
       [WhenRendered () (\<lambda>w e. if w then Some () else None), Subscribe 0] True))
     @ [OrigEnd, Completed 1, Completed 2, OrigEnd]"
  using ngOnDestroy_closes_channel
    [where end_fn = "None :: (bool \<Rightarrow> unit option \<times> bool) option"
       and s = "run None [WhenRendered () (\<lambda>w e. if w then Some () else None), Subscribe 0] True"
       and acts = "[RenderPass, Subscribe 0, WhenRendered () (\<lambda>w e. if w then Some () else None),
         Subscribe 1, RenderPass]"]
  by (simp add: observer_defs)

text \<open>
  C8. With an original hook installed, the hook the constructor puts in its place does
  to the rendering engine exactly what the original hook does, and throws what it
  throws: the original hook is invoked first and once, what follows is the
  notification only, and nothing follows when the original hook throws.
\<close>

theorem installed_hook_keeps_original:
  "map_prod id world (fst (constructor (Some orig) w) s) = orig (world s)
   \<and> (\<exists>notes. trace (snd (fst (constructor (Some orig) w) s)) = trace s @ OrigEnd # notes
         \<and> OrigEnd \<notin> set notes
         \<and> (fst (orig (world s)) \<noteq> None \<longrightarrow> notes = []))"
proof -
  have o: "origEndFn (Some orig) = orig"
    by (simp add: origEndFn_def)
  from rendererFactory_end_trace [of orig s] obtain added
    where "trace (snd (rendererFactory_end orig s)) = trace s @ OrigEnd # added"
      "OrigEnd \<notin> set added"
      "added = [] \<or> added \<noteq> [] \<and> fst (orig (world s)) = None \<and> observers s \<noteq> []
            \<and> hd added = SubjectNext \<and> SubjectNext \<notin> set (tl added)"
    by blast
  then have "\<exists>notes. trace (snd (rendererFactory_end orig s)) = trace s @ OrigEnd # notes
         \<and> OrigEnd \<notin> set notes
         \<and> (fst (orig (world s)) \<noteq> None \<longrightarrow> notes = [])"
    by blast
  with rendererFactory_end_original [of orig s] show ?thesis
    by (simp add: constructor_end o)
qed

theorem installed_hook_keeps_original_witness:
  "fst ((\<lambda>w :: bool. (Some (), \<not> w)) True) \<noteq> None
   \<and> map_prod id world (fst (constructor (Some (\<lambda>w :: bool. (Some (), \<not> w))) True)
        (run (Some (\<lambda>w :: bool. (Some (), \<not> w)))
           [WhenRendered () (\<lambda>w e. if w then Some () else None), Subscribe 0] True))
     = (Some (), False)
   \<and> trace (snd (fst (constructor (Some (\<lambda>w :: bool. (Some (), \<not> w))) True)
        (run (Some (\<lambda>w :: bool. (Some (), \<not> w)))
           [WhenRendered () (\<lambda>w e. if w then Some () else None), Subscribe 0] True)))
     = trace (run (Some (\<lambda>w :: bool. (Some (), \<not> w)))
           [WhenRendered () (\<lambda>w e. if w then Some () else None), Subscribe 0] True) @ [OrigEnd]"
  using installed_hook_keeps_original
    [where orig = "\<lambda>w :: bool. (Some (), \<not> w)" and w = True
       and s = "run (Some (\<lambda>w :: bool. (Some (), \<not> w)))
           [WhenRendered () (\<lambda>w e. if w then Some () else None), Subscribe 0] True"]
  by (simp add: observer_defs)

text \<open>
  C10. On a factory without a hook the constructor succeeds and installs a hook that,
  in every state, returns normally and leaves the rendering engine as it is.
\<close>

theorem absent_hook_is_noop:
  fixes s :: "('w, 'e) observer_state"
  shows "fst (fst (constructor (None :: ('w \<Rightarrow> 'x option \<times> 'w) option) w) s) = None
   \<and> world (snd (fst (constructor (None :: ('w \<Rightarrow> 'x option \<times> 'w) option) w) s)) = world s"
proof -
  have "fst (rendererFactory_end noop s) = (None :: 'x option)"
    by (simp add: rendererFactory_end_def noop_def Let_def)
  moreover have "world (snd (rendererFactory_end (noop :: 'w \<Rightarrow> 'x option \<times> 'w) s)) = world s"
    by (simp add: rendererFactory_end_world noop_def)
  ultimately show ?thesis
    by (simp add: constructor_end origEndFn_def)
qed

end
